theory Spec2Isabelle
  imports Main "HOL-Library.Word"
begin

unbundle bit_operations_syntax

section \<open>C strings and the library functions the interpreter calls\<close>

text \<open>
  A C string is modelled by the list of its bytes before the terminating NUL; reading
  the string at the index equal to its length yields that NUL.  The functions of this
  section are those of the ISO C library that \<^verbatim>\<open>libforth.c\<close> calls; they are written from
  the C standard.
\<close>

definition NUL :: char where
  "NUL = CHR 0x00"

definition cidx :: "string \<Rightarrow> nat \<Rightarrow> char" where
  \<comment> \<open>\<^verbatim>\<open>s[k]\<close> for \<open>k\<close> up to and including the terminator\<close>
  "cidx s k = (if k < length s then s ! k else NUL)"

definition strspn :: "string \<Rightarrow> string \<Rightarrow> nat" where
  "strspn s accept = length (takeWhile (\<lambda>c. c \<in> set accept) s)"

definition isspace :: "char \<Rightarrow> bool" where
  \<comment> \<open>the "C" locale: space, \<^verbatim>\<open>\\t \\n \\v \\f \\r\<close>\<close>
  "isspace c \<longleftrightarrow> c \<in> set [CHR '' '', CHR 0x09, CHR 0x0A, CHR 0x0B, CHR 0x0C, CHR 0x0D]"

definition scan_word :: "nat \<Rightarrow> string \<Rightarrow> (string \<times> nat) option" where
  \<comment> \<open>The directive \<^verbatim>\<open>%<width>s%n\<close> of \<^verbatim>\<open>sscanf\<close>/\<^verbatim>\<open>fscanf\<close> on the characters still to be
     read: white space is skipped, then at most \<open>width\<close> characters that are not white space
     are taken; \<^verbatim>\<open>%n\<close> reports how many characters were consumed.  \<open>None\<close> is the input
     failure (the call returns \<^verbatim>\<open>EOF\<close>): the input ended before a character was taken.\<close>
  "scan_word width cs =
     (let ws = takeWhile isspace cs; rest = dropWhile isspace cs;
          w = take width (takeWhile (\<lambda>c. \<not> isspace c) rest)
      in if rest = [] then None else Some (w, length ws + length w))"

section \<open>Number recognition\<close>

text \<open>
  \<^verbatim>\<open>
  static int is_number(const char *s)
  {
      s += *s == '-' ? 1 : 0;
      if(s[0] == '0') {
          if(s[1] == 'x')
              return s[strspn(s+2,"0123456789abcdefABCDEF")+2] == '\0' && s[2];
          else
              return s[strspn(s,"01234567")] == '\0';
      }
      return s[strspn(s, "0123456789")] == '\0' && s[0];
  }
  \<close>
\<close>

definition is_number :: "string \<Rightarrow> bool" where
  "is_number str =
     (let s = drop (if cidx str 0 = CHR ''-'' then 1 else 0) str in
      if cidx s 0 = CHR ''0'' then
        if cidx s 1 = CHR ''x'' then
          cidx s (strspn (drop 2 s) ''0123456789abcdefABCDEF'' + 2) = NUL \<and> cidx s 2 \<noteq> NUL
        else
          cidx s (strspn s ''01234567'') = NUL
      else
        cidx s (strspn s ''0123456789'') = NUL \<and> cidx s 0 \<noteq> NUL)"



section \<open>Number conversion and formatting\<close>

definition digit_val :: "char \<Rightarrow> nat option" where
  "digit_val c =
     (let k = (of_char c :: nat) in
      if 48 \<le> k \<and> k \<le> 57 then Some (k - 48)
      else if 97 \<le> k \<and> k \<le> 122 then Some (k - 87)
      else if 65 \<le> k \<and> k \<le> 90 then Some (k - 55)
      else None)"

definition is_digit :: "nat \<Rightarrow> char \<Rightarrow> bool" where
  "is_digit base c = (case digit_val c of None \<Rightarrow> False | Some d \<Rightarrow> d < base)"

definition digits_value :: "nat \<Rightarrow> string \<Rightarrow> nat" where
  "digits_value base ds =
     foldl (\<lambda>acc c. acc * base + (case digit_val c of None \<Rightarrow> 0 | Some d \<Rightarrow> d)) 0 ds"

definition LONG_MAX :: int where [simp]: "LONG_MAX = 2 ^ 63 - 1"
definition LONG_MIN :: int where [simp]: "LONG_MIN = - (2 ^ 63)"

definition strtol :: "string \<Rightarrow> int" where
  \<comment> \<open>\<^verbatim>\<open>strtol(s, 0, 0)\<close>: white space, an optional sign, the base taken from the prefix
     (\<^verbatim>\<open>0x\<close> before a hexadecimal digit, else a leading \<^verbatim>\<open>0\<close> for octal, else decimal), the
     longest run of digits of that base, saturating at the range of \<^verbatim>\<open>long\<close> (64 bits).\<close>
  "strtol str =
     (let t = dropWhile isspace str;
          neg = (cidx t 0 = CHR ''-'');
          t1 = drop (if cidx t 0 = CHR ''-'' \<or> cidx t 0 = CHR ''+'' then 1 else 0) t;
          hex = (cidx t1 0 = CHR ''0'' \<and> (cidx t1 1 = CHR ''x'' \<or> cidx t1 1 = CHR ''X'')
                 \<and> is_digit 16 (cidx t1 2));
          base = (if hex then 16 else if cidx t1 0 = CHR ''0'' then 8 else 10);
          t2 = (if hex then drop 2 t1 else t1);
          v = int (digits_value base (takeWhile (is_digit base) t2));
          r = (if neg then - v else v)
      in max LONG_MIN (min LONG_MAX r))"

definition digit_char :: "bool \<Rightarrow> nat \<Rightarrow> char" where
  "digit_char upper d =
     (if d < 10 then char_of (48 + d) else char_of ((if upper then 55 else 87) + d))"

function radix :: "nat \<Rightarrow> bool \<Rightarrow> nat \<Rightarrow> string" where
  "radix base upper n =
     (if n < base \<or> base < 2 then [digit_char upper n]
      else radix base upper (n div base) @ [digit_char upper (n mod base)])"
  by pat_completeness auto
termination
  by (relation "measure (\<lambda>(base, upper, n). n)") auto

declare radix.simps [simp del]

definition zero_pad :: "nat \<Rightarrow> string \<Rightarrow> string" where
  "zero_pad width ds = replicate (width - length ds) CHR ''0'' @ ds"

section \<open>The core object\<close>

text \<open>
  \<^verbatim>\<open>forth_cell_t\<close> is declared in \<^verbatim>\<open>libforth.h\<close>; the source prints cells with \<^verbatim>\<open>%hu\<close>
  and \<^verbatim>\<open>%hx\<close> and sizes the default image as \<^verbatim>\<open>(UINT16_MAX + 1) / 2\<close>: a cell is an
  unsigned 16-bit integer, two bytes wide, and \<^verbatim>\<open>size_t\<close> is taken to be 64 bits wide.
\<close>

type_synonym cell = "16 word"

definition cell_bytes :: nat where [simp]: "cell_bytes = 2"  \<comment> \<open>\<^verbatim>\<open>sizeof(forth_cell_t)\<close>\<close>
definition BLOCK_SIZE :: nat where [simp]: "BLOCK_SIZE = 1024"
definition STRING_OFFSET :: nat where [simp]: "STRING_OFFSET = 32"
definition MAX_WORD_LENGTH :: nat where [simp]: "MAX_WORD_LENGTH = 32"
definition DICTIONARY_START :: nat where [simp]: "DICTIONARY_START = STRING_OFFSET + MAX_WORD_LENGTH"
definition WORD_LENGTH_OFFSET :: nat where [simp]: "WORD_LENGTH_OFFSET = 8"
definition INSTRUCTION_MASK :: cell where [simp]: "INSTRUCTION_MASK = 0x7f"
definition EOF :: int where [simp]: "EOF = - 1"

definition WORD_LENGTH :: "cell \<Rightarrow> cell" where
  "WORD_LENGTH field1 = drop_bit WORD_LENGTH_OFFSET field1 AND 0xff"

definition WORD_HIDDEN :: "cell \<Rightarrow> cell" where
  "WORD_HIDDEN field1 = field1 AND 0x80"

definition b :: "cell \<Rightarrow> cell" where
  "b k = k AND INSTRUCTION_MASK"

text \<open>\<^verbatim>\<open>enum registers { DIC=0, RSTK=1, STATE=8, HEX=9, PWD=10, INFO=11 }\<close>\<close>

definition DIC :: nat where [simp]: "DIC = 0"
definition RSTK :: nat where [simp]: "RSTK = 1"
definition STATE :: nat where [simp]: "STATE = 8"
definition HEX :: nat where [simp]: "HEX = 9"
definition PWD :: nat where [simp]: "PWD = 10"
definition INFO :: nat where [simp]: "INFO = 11"

datatype instruction =
    PUSH | COMPILE | RUN | DEFINE | IMMEDIATE | COMMENT | READ | LOAD | STORE
  | SUB | ADD | AND_op | OR_op | XOR_op | INV | SHL | SHR | MUL | LESS | EXIT | EMIT | KEY
  | FROMR | TOR | JMP | JMPZ | PNUM | QUOTE | COMMA | EQUAL | SWAP | DUP | DROP | OVER
  | TAIL | BSAVE | BLOAD | FIND | PRINT | PSTK

definition instructions :: "instruction list" where
  "instructions =
     [PUSH, COMPILE, RUN, DEFINE, IMMEDIATE, COMMENT, READ, LOAD, STORE,
      SUB, ADD, AND_op, OR_op, XOR_op, INV, SHL, SHR, MUL, LESS, EXIT, EMIT, KEY,
      FROMR, TOR, JMP, JMPZ, PNUM, QUOTE, COMMA, EQUAL, SWAP, DUP, DROP, OVER,
      TAIL, BSAVE, BLOAD, FIND, PRINT, PSTK]"

definition opcode :: "instruction \<Rightarrow> cell" where
  \<comment> \<open>the enumerator's value: its position in \<^verbatim>\<open>enum instructions\<close>\<close>
  "opcode i = of_nat (length (takeWhile (\<lambda>j. j \<noteq> i) instructions))"

definition decode :: "cell \<Rightarrow> instruction option" where
  \<comment> \<open>\<open>None\<close> for \<^verbatim>\<open>LAST\<close> and beyond: the \<^verbatim>\<open>default\<close> label of the switch\<close>
  "decode c = (if unat c < length instructions then Some (instructions ! unat c) else None)"

text \<open>
  \<^verbatim>\<open>struct forth\<close>.  The streams behind \<^verbatim>\<open>in\<close> and \<^verbatim>\<open>out\<close> are the bytes not yet read and the
  bytes written so far; \<^verbatim>\<open>S\<close> is kept as the index \<^verbatim>\<open>S - m\<close> that \<^verbatim>\<open>forth_stack_position\<close>
  reports; \<^verbatim>\<open>s\<close> is the constant \<^verbatim>\<open>m + STRING_OFFSET\<close>.  \<open>files\<close> and \<open>wroom\<close> are not members:
  they are the file system that \<^verbatim>\<open>blockio\<close> works on.  \<open>files\<close> is the store of block files by
  name, newest binding first; \<open>wroom name\<close> is \<open>None\<close> when \<^verbatim>\<open>fopen(name, "wb")\<close> fails and
  otherwise the number of bytes that \<^verbatim>\<open>fwrite\<close> can put into the file before it comes up
  short.  Diagnostics on \<^verbatim>\<open>stderr\<close> are not recorded.
\<close>

record forth =
  fin :: string
  fout :: string
  sin :: string
  slen :: nat
  sidx :: nat
  stringin :: bool
  invalid :: bool
  core_size :: nat
  stack_size :: nat
  o_I :: cell
  o_top :: cell
  o_S :: nat
  m :: "cell list"
  files :: "(string \<times> string) list"
  wroom :: "string \<Rightarrow> nat option"

text \<open>The local variables \<^verbatim>\<open>S\<close>, \<^verbatim>\<open>I\<close> and \<^verbatim>\<open>f\<close> of \<^verbatim>\<open>forth_run\<close>, beside the core.\<close>

record vm = forth +
  S :: nat
  I :: cell
  f :: cell

subsection \<open>The image as bytes\<close>

text \<open>
  The name of a word, the string buffer and the block transfers address the image byte by
  byte (\<^verbatim>\<open>(char *)m\<close>); the low byte of a cell comes first (a little-endian host).
\<close>

definition get_byte :: "cell list \<Rightarrow> nat \<Rightarrow> char" where
  "get_byte img k = char_of (unat (drop_bit (8 * (k mod cell_bytes)) (img ! (k div cell_bytes))))"

definition put_byte :: "cell list \<Rightarrow> nat \<Rightarrow> char \<Rightarrow> cell list" where
  "put_byte img k c =
     img[k div cell_bytes :=
       (if even k then (img ! (k div cell_bytes) AND 0xff00) OR of_char c
        else (img ! (k div cell_bytes) AND 0x00ff) OR push_bit 8 (of_char c))]"

fun put_bytes :: "cell list \<Rightarrow> nat \<Rightarrow> string \<Rightarrow> cell list" where
  "put_bytes img k [] = img"
| "put_bytes img k (c # cs) = put_bytes (put_byte img k c) (Suc k) cs"

definition get_bytes :: "cell list \<Rightarrow> nat \<Rightarrow> nat \<Rightarrow> string" where
  "get_bytes img k n = map (get_byte img) [k ..< k + n]"

function get_cstr :: "cell list \<Rightarrow> nat \<Rightarrow> string option" where
  \<comment> \<open>the C string at byte offset \<open>k\<close>; \<open>None\<close> when no NUL follows inside the image\<close>
  "get_cstr img k =
     (if cell_bytes * length img \<le> k then None
      else if get_byte img k = NUL then Some []
      else map_option ((#) (get_byte img k)) (get_cstr img (Suc k)))"
  by pat_completeness auto
termination
  by (relation "measure (\<lambda>(img, k). cell_bytes * length img - k)") auto

declare get_cstr.simps [simp del]

fun strcmp_differs :: "cell list \<Rightarrow> string \<Rightarrow> nat \<Rightarrow> bool option" where
  \<comment> \<open>\<^verbatim>\<open>strcmp(a, b) != 0\<close> for the C string \<open>a\<close> against the bytes at offset \<open>k\<close>; \<open>None\<close> when
     the comparison runs off the end of the image\<close>
  "strcmp_differs img [] k =
     (if cell_bytes * length img \<le> k then None else Some (get_byte img k \<noteq> NUL))"
| "strcmp_differs img (x # xs) k =
     (if cell_bytes * length img \<le> k then None
      else if get_byte img k \<noteq> x then Some True
      else strcmp_differs img xs (Suc k))"

definition s_offset :: nat where
  \<comment> \<open>\<^verbatim>\<open>o->s\<close> as a byte offset into the image\<close>
  [simp]: "s_offset = STRING_OFFSET * cell_bytes"


section \<open>Input\<close>

text \<open>
  Functions of the source that touch memory through a pointer return \<open>None\<close> where the
  access would leave the object pointed into (the image, the input string): the C standard
  gives that no meaning.
\<close>

definition forth_get_char :: "'a forth_scheme \<Rightarrow> (int \<times> 'a forth_scheme) option" where
  "forth_get_char st =
     (if stringin st then
        if slen st \<le> sidx st then Some (EOF, st)
        else if length (sin st) < sidx st then None
        else Some (of_char (cidx (sin st) (sidx st)), st\<lparr>sidx := sidx st + 1\<rparr>)
      else
        case fin st of
          [] \<Rightarrow> Some (EOF, st)
        | c # cs \<Rightarrow> Some (of_char c, st\<lparr>fin := cs\<rparr>))"

definition forth_get_word :: "'a forth_scheme \<Rightarrow> (int \<times> 'a forth_scheme) option" where
  \<comment> \<open>the buffer \<^verbatim>\<open>p\<close> is \<^verbatim>\<open>o->s\<close> at every call\<close>
  "forth_get_word st =
     (if stringin st then
        if length (sin st) < sidx st then None
        else
          case scan_word (MAX_WORD_LENGTH - 1) (drop (sidx st) (sin st)) of
            None \<Rightarrow> Some (EOF, st)
          | Some (w, n) \<Rightarrow>
              if cell_bytes * length (m st) < s_offset + length w + 1 then None
              else Some (int n, st\<lparr>sidx := sidx st + n,
                                    m := put_bytes (m st) s_offset (w @ [NUL])\<rparr>)
      else
        case scan_word (MAX_WORD_LENGTH - 1) (fin st) of
          None \<Rightarrow> Some (EOF, st\<lparr>fin := []\<rparr>)
        | Some (w, n) \<Rightarrow>
            if cell_bytes * length (m st) < s_offset + length w + 1 then None
            else Some (1, st\<lparr>fin := drop n (fin st),
                              m := put_bytes (m st) s_offset (w @ [NUL])\<rparr>))"

definition unread :: "'a forth_scheme \<Rightarrow> nat" where
  \<comment> \<open>how many more characters \<^verbatim>\<open>forth_get_char\<close> can deliver\<close>
  "unread st = (if stringin st then slen st - sidx st else length (fin st))"

function comment :: "'a forth_scheme \<Rightarrow> (int \<times> 'a forth_scheme) option" where
  "comment st =
     (case forth_get_char st of
        None \<Rightarrow> None
      | Some (c, st') \<Rightarrow> if c > 0 \<and> c \<noteq> of_char CHR 0x0A then comment st' else Some (c, st'))"
  by pat_completeness auto
termination
proof (relation "measure unread")
  show "wf (measure unread)" by simp
next
  fix st :: "'a forth_scheme" and x2 x y
  assume "forth_get_char st = Some x2" and "(x, y) = x2" and "0 < x \<and> x \<noteq> of_char CHR 0x0A"
  then show "(y, st) \<in> measure unread"
    by (auto simp: forth_get_char_def unread_def split: if_splits list.splits)
qed

declare comment.simps [simp del]

section \<open>Compiler and dictionary\<close>

datatype fault =
    Wild  \<comment> \<open>an access outside the image that no bounds check precedes\<close>
  | Arith  \<comment> \<open>an operation on \<^verbatim>\<open>int\<close> to which the C standard gives no value\<close>
  | Spin  \<comment> \<open>a loop that has not ended within the steps allowed\<close>

definition append_raw :: "cell list \<Rightarrow> cell \<Rightarrow> cell list option" where
  \<comment> \<open>\<^verbatim>\<open>m[m[0]++] = v\<close>, the increment taken before the store (they touch the same cell
     only when \<^verbatim>\<open>m[0]\<close> is 0)\<close>
  "append_raw img v =
     (let d = img ! DIC in
      if unat d < length img then Some ((img[DIC := d + 1])[unat d := v]) else None)"

definition compile :: "'a forth_scheme \<Rightarrow> cell \<Rightarrow> string option \<Rightarrow> (int \<times> 'a forth_scheme) option" where
  \<comment> \<open>\<open>str = None\<close> is the \<^verbatim>\<open>NULL\<close> argument: the name is read from the input into \<^verbatim>\<open>o->s\<close>.
     \<^verbatim>\<open>strcpy\<close> must fit the image and not overlap its source; \<^verbatim>\<open>l\<close> is the name length in
     cells.  The \<^verbatim>\<open>assert\<close> on \<open>code\<close> holds at every call.\<close>
  "compile st code str =
     (let header = m st ! DIC in
      case (case str of None \<Rightarrow> forth_get_word st | Some _ \<Rightarrow> Some (0, st)) of
        None \<Rightarrow> None
      | Some (r, st1) \<Rightarrow>
          if str = None \<and> r < 0 then Some (- 1, st1)
          else
            case (case str of None \<Rightarrow> get_cstr (m st1) s_offset | Some nm \<Rightarrow> Some nm) of
              None \<Rightarrow> None
            | Some nm \<Rightarrow>
                let dst = cell_bytes * unat header;
                    n = length nm + 1
                in
                  if cell_bytes * length (m st1) < dst + n then None
                  else if str = None \<and> dst < s_offset + n \<and> s_offset < dst + n then None
                  else
                    let m1 = put_bytes (m st1) dst (nm @ [NUL]);
                        aligned = (n + (cell_bytes - 1)) - (n + (cell_bytes - 1)) mod cell_bytes;
                        l = aligned div cell_bytes;
                        m2 = m1[DIC := m1 ! DIC + of_nat l]
                    in
                      case append_raw m2 (m2 ! PWD) of
                        None \<Rightarrow> None
                      | Some m3 \<Rightarrow>
                          let m4 = m3[PWD := m3 ! DIC - 1] in
                          case append_raw m4 (push_bit WORD_LENGTH_OFFSET (of_nat l) OR code) of
                            None \<Rightarrow> None
                          | Some m5 \<Rightarrow> Some (0, st1\<lparr>m := m5\<rparr>))"

text \<open>
  The loop of \<^verbatim>\<open>find\<close> follows link fields and need not end (a link may point back), so it
  is given the number of iterations it may make; \<^verbatim>\<open>w + 1\<close> and \<^verbatim>\<open>w - len\<close> are computed in
  \<^verbatim>\<open>int\<close> and do not wrap.
\<close>

fun find_loop :: "nat \<Rightarrow> cell list \<Rightarrow> cell \<Rightarrow> cell \<Rightarrow> fault + cell" where
  "find_loop 0 img w len = Inl Spin"
| "find_loop (Suc n) img w len =
     (if DICTIONARY_START < unat w then
        if unat w < unat len then Inl Wild
        else
          case get_cstr img s_offset of
            None \<Rightarrow> Inl Wild
          | Some nm \<Rightarrow>
              case strcmp_differs img nm (cell_bytes * (unat w - unat len)) of
                None \<Rightarrow> Inl Wild
              | Some differs \<Rightarrow>
                  if differs \<or> WORD_HIDDEN (img ! (unat w + 1)) \<noteq> 0 then
                    let w' = img ! unat w in
                    if length img \<le> unat w' + 1 then Inl Wild
                    else find_loop n img w' (WORD_LENGTH (img ! (unat w' + 1)))
                  else Inr w
      else Inr 0)"

definition find_word :: "nat \<Rightarrow> 'a forth_scheme \<Rightarrow> fault + cell" where
  \<comment> \<open>\<^verbatim>\<open>find\<close>, given the number of links it may follow\<close>
  "find_word n st =
     (let w = m st ! PWD in
      if length (m st) \<le> unat w + 1 then Inl Wild
      else find_loop n (m st) w (WORD_LENGTH (m st ! (unat w + 1))))"

section \<open>Block input and output\<close>

definition block_name :: "cell \<Rightarrow> string" where
  \<comment> \<open>\<^verbatim>\<open>sprintf(name, "%04x.blk", (int)id)\<close>\<close>
  "block_name ident = zero_pad 4 (radix 16 False (unat ident)) @ ''.blk''"

definition size_sub :: "nat \<Rightarrow> nat \<Rightarrow> nat" where
  \<comment> \<open>subtraction in \<^verbatim>\<open>size_t\<close>\<close>
  "size_sub x y = (if y \<le> x then x - y else 2 ^ 64 + x - y)"

definition blockio :: "'a forth_scheme \<Rightarrow> cell \<Rightarrow> cell \<Rightarrow> char \<Rightarrow> (int \<times> 'a forth_scheme) option" where
  \<comment> \<open>\<^verbatim>\<open>p\<close> is the image at both calls.  \<^verbatim>\<open>fopen\<close> for reading fails on a missing file; for
     writing it creates or empties the file.  A mode other than \<^verbatim>\<open>'r'\<close> and \<^verbatim>\<open>'w'\<close> opens for
     writing and calls \<^verbatim>\<open>fread\<close>, which delivers nothing.\<close>
  "blockio st poffset ident rw =
     (if size_sub (core_size st) BLOCK_SIZE < unat poffset then Some (- 1, st)
      else if rw = CHR ''r'' then
        case map_of (files st) (block_name ident) of
          None \<Rightarrow> Some (- 1, st)
        | Some contents \<Rightarrow>
            let got = take BLOCK_SIZE contents in
            if cell_bytes * length (m st) < unat poffset + length got then None
            else Some (if length got = BLOCK_SIZE then 0 else - 1,
                       st\<lparr>m := put_bytes (m st) (unat poffset) got\<rparr>)
      else
        case wroom st (block_name ident) of
          None \<Rightarrow> Some (- 1, st)
        | Some room \<Rightarrow>
            if rw = CHR ''w'' then
              if cell_bytes * length (m st) < unat poffset + BLOCK_SIZE then None
              else
                let put = min room BLOCK_SIZE in
                Some (if put = BLOCK_SIZE then 0 else - 1,
                      st\<lparr>files := (block_name ident, get_bytes (m st) (unat poffset) put)
                                    # files st\<rparr>)
            else Some (- 1, st\<lparr>files := (block_name ident, []) # files st\<rparr>))"

section \<open>Output\<close>

definition print_cell :: "'a forth_scheme \<Rightarrow> bool \<Rightarrow> cell \<Rightarrow> string" where
  \<comment> \<open>\<^verbatim>\<open>m[HEX] ? "%X" : "%u"\<close>, and \<^verbatim>\<open>"%hx"\<close>, \<^verbatim>\<open>"%hu"\<close> in \<^verbatim>\<open>print_stack\<close>\<close>
  "print_cell st upper c =
     (if m st ! HEX \<noteq> 0 then radix 16 upper (unat c) else radix 10 False (unat c))"

definition print_stack :: "'a forth_scheme \<Rightarrow> cell \<Rightarrow> nat \<Rightarrow> 'a forth_scheme option" where
  "print_stack st tos sp =
     (let begin = core_size st - 2 * stack_size st;
          cells = rev [begin + 2 ..< Suc sp]
      in if cells \<noteq> [] \<and> length (m st) \<le> sp then None
         else Some (st\<lparr>fout := fout st @ print_cell st False tos @ [CHR 0x09]
                        @ concat (map (\<lambda>k. print_cell st False (m st ! k) @ [CHR 0x09]) cells)\<rparr>))"


section \<open>The inner interpreter\<close>

text \<open>How one pass through the \<^verbatim>\<open>switch\<close> of \<^verbatim>\<open>forth_run\<close> leaves it.\<close>

datatype 'a outcome =
    Break 'a  \<comment> \<open>\<^verbatim>\<open>break\<close>: on to the head of the \<^verbatim>\<open>for\<close> loop\<close>
  | Inner cell 'a  \<comment> \<open>\<^verbatim>\<open>goto INNER\<close> with the new \<^verbatim>\<open>pc\<close>\<close>
  | End 'a  \<comment> \<open>\<^verbatim>\<open>goto end\<close>\<close>
  | Longjmp 'a  \<comment> \<open>\<^verbatim>\<open>longjmp(o->error, 1)\<close>\<close>
  | Fault fault

definition then_do :: "'a outcome \<Rightarrow> ('a \<Rightarrow> 'a outcome) \<Rightarrow> 'a outcome" where
  "then_do r k = (case r of Break st \<Rightarrow> k st | other \<Rightarrow> other)"

definition ck :: "'a forth_scheme \<Rightarrow> cell \<Rightarrow> bool" where
  \<comment> \<open>\<^verbatim>\<open>check_bounds\<close> returns (rather than jumping)\<close>
  "ck st c \<longleftrightarrow> unat c < core_size st"

definition push_val :: "'a vm_scheme \<Rightarrow> cell \<Rightarrow> 'a vm_scheme option" where
  \<comment> \<open>\<^verbatim>\<open>*++S = v\<close>\<close>
  "push_val st v =
     (if Suc (S st) < length (m st)
      then Some (st\<lparr>S := Suc (S st), m := (m st)[Suc (S st) := v]\<rparr>) else None)"

definition pop :: "'a vm_scheme \<Rightarrow> (cell \<times> 'a vm_scheme) option" where
  \<comment> \<open>\<^verbatim>\<open>*S--\<close>\<close>
  "pop st =
     (if 0 < S st \<and> S st < length (m st) then Some (m st ! S st, st\<lparr>S := S st - 1\<rparr>) else None)"

definition drop_top :: "'a vm_scheme \<Rightarrow> 'a vm_scheme outcome" where
  \<comment> \<open>\<^verbatim>\<open>f = *S--; break\<close>\<close>
  "drop_top st = (case pop st of None \<Rightarrow> Fault Wild | Some (v, st') \<Rightarrow> Break (st'\<lparr>f := v\<rparr>))"

definition binop :: "(cell \<Rightarrow> cell \<Rightarrow> cell) \<Rightarrow> 'a vm_scheme \<Rightarrow> 'a vm_scheme outcome" where
  \<comment> \<open>\<^verbatim>\<open>f = *S-- op f; break\<close>\<close>
  "binop g st =
     (case pop st of None \<Rightarrow> Fault Wild | Some (v, st') \<Rightarrow> Break (st'\<lparr>f := g v (f st)\<rparr>))"

text \<open>
  The operands of \<^verbatim>\<open>*\<close>, \<^verbatim>\<open><<\<close> and \<^verbatim>\<open>>>\<close> are cells promoted to \<^verbatim>\<open>int\<close>, taken to be 32 bits
  wide; the result is converted back to a cell on assignment to \<^verbatim>\<open>f\<close>.  A shift has no value
  for a count of 32 or more, and a product or a shift to the left has none when \<^verbatim>\<open>int\<close> cannot
  hold it.  Sums, differences and the bitwise operations of two cells always fit.
\<close>

definition INT_BITS :: nat where [simp]: "INT_BITS = 32"

definition in_int :: "nat \<Rightarrow> cell option" where
  \<comment> \<open>a result that is not negative, as a cell\<close>
  "in_int k = (if k < 2 ^ (INT_BITS - 1) then Some (of_nat k) else None)"

definition mul :: "cell \<Rightarrow> cell \<Rightarrow> cell option" where
  "mul v w = in_int (unat v * unat w)"

definition shl :: "cell \<Rightarrow> cell \<Rightarrow> cell option" where
  "shl v w = (if INT_BITS \<le> unat w then None else in_int (push_bit (unat w) (unat v)))"

definition shr :: "cell \<Rightarrow> cell \<Rightarrow> cell option" where
  "shr v w = (if INT_BITS \<le> unat w then None else in_int (drop_bit (unat w) (unat v)))"

definition intop :: "(cell \<Rightarrow> cell \<Rightarrow> cell option) \<Rightarrow> 'a vm_scheme \<Rightarrow> 'a vm_scheme outcome" where
  \<comment> \<open>\<^verbatim>\<open>f = *S-- op f; break\<close> for these three\<close>
  "intop g st =
     (case pop st of
        None \<Rightarrow> Fault Wild
      | Some (v, st') \<Rightarrow> (case g v (f st) of None \<Rightarrow> Fault Arith | Some x \<Rightarrow> Break (st'\<lparr>f := x\<rparr>)))"

definition dic_append :: "'a vm_scheme \<Rightarrow> cell \<Rightarrow> 'a vm_scheme outcome" where
  \<comment> \<open>\<^verbatim>\<open>m[ck(m[DIC]++)] = v\<close>\<close>
  "dic_append st v =
     (let d = m st ! DIC; st1 = st\<lparr>m := (m st)[DIC := d + 1]\<rparr> in
      if ck st1 d then Break (st1\<lparr>m := (m st1)[unat d := v]\<rparr>) else Longjmp st1)"

definition rpush :: "'a vm_scheme \<Rightarrow> cell \<Rightarrow> 'a vm_scheme outcome" where
  \<comment> \<open>\<^verbatim>\<open>m[ck(++m[RSTK])] = v\<close>\<close>
  "rpush st v =
     (let r = m st ! RSTK + 1; st1 = st\<lparr>m := (m st)[RSTK := r]\<rparr> in
      if ck st1 r then Break (st1\<lparr>m := (m st1)[unat r := v]\<rparr>) else Longjmp st1)"

definition rpop :: "'a vm_scheme \<Rightarrow> 'a vm_scheme + cell \<times> 'a vm_scheme" where
  \<comment> \<open>\<^verbatim>\<open>m[ck(m[RSTK]--)]\<close>; \<open>Inl\<close> when the check jumps\<close>
  "rpop st =
     (let r = m st ! RSTK; st1 = st\<lparr>m := (m st)[RSTK := r - 1]\<rparr> in
      if ck st1 r then Inr (m st1 ! unat r, st1) else Inl st1)"

definition do_PUSH :: "'a vm_scheme \<Rightarrow> 'a vm_scheme outcome" where
  \<comment> \<open>\<^verbatim>\<open>*++S = f; f = m[ck(I++)];\<close> (also \<^verbatim>\<open>QUOTE\<close>)\<close>
  "do_PUSH st =
     (case push_val st (f st) of
        None \<Rightarrow> Fault Wild
      | Some st1 \<Rightarrow>
          let i = I st1; st2 = st1\<lparr>I := i + 1\<rparr> in
          if ck st2 i then Break (st2\<lparr>f := m st2 ! unat i\<rparr>) else Longjmp st2)"

definition do_COMPILE :: "cell \<Rightarrow> 'a vm_scheme \<Rightarrow> 'a vm_scheme outcome" where
  \<comment> \<open>\<^verbatim>\<open>m[ck(m[DIC]++)] = pc;\<close>\<close>
  "do_COMPILE pc st = dic_append st pc"

definition do_RUN :: "cell \<Rightarrow> 'a vm_scheme \<Rightarrow> 'a vm_scheme outcome" where
  \<comment> \<open>\<^verbatim>\<open>m[ck(++m[RSTK])] = I; I = pc;\<close>\<close>
  "do_RUN pc st = then_do (rpush st (I st)) (\<lambda>st1. Break (st1\<lparr>I := pc\<rparr>))"

definition do_DEFINE :: "'a vm_scheme \<Rightarrow> 'a vm_scheme outcome" where
  \<comment> \<open>\<^verbatim>\<open>m[STATE] = 1; if(compile(o, COMPILE, NULL) < 0) goto end; m[ck(m[DIC]++)] = RUN;\<close>\<close>
  "do_DEFINE st =
     (case compile (st\<lparr>m := (m st)[STATE := 1]\<rparr>) (opcode COMPILE) None of
        None \<Rightarrow> Fault Wild
      | Some (r, st1) \<Rightarrow> if r < 0 then End st1 else dic_append st1 (opcode RUN))"

definition do_IMMEDIATE :: "'a vm_scheme \<Rightarrow> 'a vm_scheme outcome" where
  \<comment> \<open>\<^verbatim>\<open>*m -= 2; m[m[DIC]] = (m[m[DIC]] & ~INSTRUCTION_MASK) | RUN; m[DIC]++;\<close>\<close>
  "do_IMMEDIATE st =
     (let m1 = (m st)[DIC := m st ! DIC - 2];
          d = m1 ! DIC
      in if length m1 \<le> unat d then Fault Wild
         else
           let m2 = m1[unat d := (m1 ! unat d AND NOT INSTRUCTION_MASK) OR opcode RUN];
               m3 = m2[DIC := m2 ! DIC + 1]
           in Break (st\<lparr>m := m3\<rparr>))"

definition do_COMMENT :: "'a vm_scheme \<Rightarrow> 'a vm_scheme outcome" where
  \<comment> \<open>\<^verbatim>\<open>if(comment(o) < 0) goto end;\<close>\<close>
  "do_COMMENT st =
     (case comment st of
        None \<Rightarrow> Fault Wild
      | Some (c, st1) \<Rightarrow> if c < 0 then End st1 else Break st1)"

definition do_READ :: "nat \<Rightarrow> 'a vm_scheme \<Rightarrow> 'a vm_scheme outcome" where
  \<comment> \<open>the \<^verbatim>\<open>READ\<close> case; \<^verbatim>\<open>is_number\<close> and \<^verbatim>\<open>strtol\<close> read the string buffer where the source
     calls them, and an unknown word only prints its diagnostic\<close>
  "do_READ n st =
     (if \<not> ck st (of_nat RSTK) then Longjmp st
      else
        case forth_get_word (st\<lparr>m := (m st)[RSTK := m st ! RSTK - 1]\<rparr>) of
          None \<Rightarrow> Fault Wild
        | Some (r, st1) \<Rightarrow>
            if r < 0 then End st1
            else
              case find_word n st1 of
                Inl e \<Rightarrow> Fault e
              | Inr w \<Rightarrow>
                  if 1 < w then
                    let pc = w + 1 in
                    if m st1 ! STATE = 0 then
                      if ck st1 pc
                      then Inner (if b (m st1 ! unat pc) = opcode COMPILE then pc + 1 else pc) st1
                      else Longjmp st1
                    else Inner pc st1
                  else
                    case get_cstr (m st1) s_offset of
                      None \<Rightarrow> Fault Wild
                    | Some word \<Rightarrow>
                        if \<not> is_number word then Break st1
                        else if m st1 ! STATE \<noteq> 0 then
                          case append_raw (m st1) 2 of
                            None \<Rightarrow> Fault Wild
                          | Some m1 \<Rightarrow>
                              (case get_cstr m1 s_offset of
                                 None \<Rightarrow> Fault Wild
                               | Some num \<Rightarrow> dic_append (st1\<lparr>m := m1\<rparr>) (of_int (strtol num)))
                        else
                          case push_val st1 (f st1) of
                            None \<Rightarrow> Fault Wild
                          | Some st2 \<Rightarrow>
                              (case get_cstr (m st2) s_offset of
                                 None \<Rightarrow> Fault Wild
                               | Some num \<Rightarrow> Break (st2\<lparr>f := of_int (strtol num)\<rparr>)))"

definition do_LOAD :: "'a vm_scheme \<Rightarrow> 'a vm_scheme outcome" where
  \<comment> \<open>\<^verbatim>\<open>f = m[ck(f)];\<close>\<close>
  "do_LOAD st = (if ck st (f st) then Break (st\<lparr>f := m st ! unat (f st)\<rparr>) else Longjmp st)"

definition do_STORE :: "'a vm_scheme \<Rightarrow> 'a vm_scheme outcome" where
  \<comment> \<open>\<^verbatim>\<open>m[ck(f)] = *S--; f = *S--;\<close>\<close>
  "do_STORE st =
     (if \<not> ck st (f st) then Longjmp st
      else
        case pop st of
          None \<Rightarrow> Fault Wild
        | Some (v, st1) \<Rightarrow> drop_top (st1\<lparr>m := (m st1)[unat (f st) := v]\<rparr>))"

definition do_EXIT :: "'a vm_scheme \<Rightarrow> 'a vm_scheme outcome" where
  \<comment> \<open>\<^verbatim>\<open>I = m[ck(m[RSTK]--)];\<close>\<close>
  "do_EXIT st = (case rpop st of Inl st1 \<Rightarrow> Longjmp st1 | Inr (v, st1) \<Rightarrow> Break (st1\<lparr>I := v\<rparr>))"

definition do_EMIT :: "'a vm_scheme \<Rightarrow> 'a vm_scheme outcome" where
  \<comment> \<open>\<^verbatim>\<open>fputc(f, o->out); f = *S--;\<close>\<close>
  "do_EMIT st = drop_top (st\<lparr>fout := fout st @ [char_of (unat (f st))]\<rparr>)"

definition do_KEY :: "'a vm_scheme \<Rightarrow> 'a vm_scheme outcome" where
  \<comment> \<open>\<^verbatim>\<open>*++S = f; f = forth_get_char(o);\<close>\<close>
  "do_KEY st =
     (case push_val st (f st) of
        None \<Rightarrow> Fault Wild
      | Some st1 \<Rightarrow>
          (case forth_get_char st1 of
             None \<Rightarrow> Fault Wild
           | Some (c, st2) \<Rightarrow> Break (st2\<lparr>f := of_int c\<rparr>)))"

definition do_FROMR :: "'a vm_scheme \<Rightarrow> 'a vm_scheme outcome" where
  \<comment> \<open>\<^verbatim>\<open>*++S = f; f = m[ck(m[RSTK]--)];\<close>\<close>
  "do_FROMR st =
     (case push_val st (f st) of
        None \<Rightarrow> Fault Wild
      | Some st1 \<Rightarrow>
          (case rpop st1 of Inl st2 \<Rightarrow> Longjmp st2 | Inr (v, st2) \<Rightarrow> Break (st2\<lparr>f := v\<rparr>)))"

definition do_TOR :: "'a vm_scheme \<Rightarrow> 'a vm_scheme outcome" where
  \<comment> \<open>\<^verbatim>\<open>m[ck(++m[RSTK])] = f; f = *S--;\<close>\<close>
  "do_TOR st = then_do (rpush st (f st)) drop_top"

definition do_JMP :: "'a vm_scheme \<Rightarrow> 'a vm_scheme outcome" where
  \<comment> \<open>\<^verbatim>\<open>I += m[ck(I)];\<close>\<close>
  "do_JMP st = (if ck st (I st) then Break (st\<lparr>I := I st + m st ! unat (I st)\<rparr>) else Longjmp st)"

definition do_JMPZ :: "'a vm_scheme \<Rightarrow> 'a vm_scheme outcome" where
  \<comment> \<open>\<^verbatim>\<open>I += f == 0 ? m[I] : 1; f = *S--;\<close>\<close>
  "do_JMPZ st =
     (if f st = 0 then
        if unat (I st) < length (m st) then drop_top (st\<lparr>I := I st + m st ! unat (I st)\<rparr>)
        else Fault Wild
      else drop_top (st\<lparr>I := I st + 1\<rparr>))"

definition do_PNUM :: "'a vm_scheme \<Rightarrow> 'a vm_scheme outcome" where
  \<comment> \<open>\<^verbatim>\<open>fprintf(o->out, m[HEX] ? "%X" : "%u", f); f = *S--;\<close>\<close>
  "do_PNUM st = drop_top (st\<lparr>fout := fout st @ print_cell st True (f st)\<rparr>)"

definition do_COMMA :: "'a vm_scheme \<Rightarrow> 'a vm_scheme outcome" where
  \<comment> \<open>\<^verbatim>\<open>m[ck(m[0]++)] = f; f = *S--;\<close>\<close>
  "do_COMMA st = then_do (dic_append st (f st)) drop_top"

definition do_SWAP :: "'a vm_scheme \<Rightarrow> 'a vm_scheme outcome" where
  \<comment> \<open>\<^verbatim>\<open>w = f; f = *S--; *++S = w;\<close>\<close>
  "do_SWAP st =
     (case pop st of
        None \<Rightarrow> Fault Wild
      | Some (v, st1) \<Rightarrow>
          (case push_val st1 (f st) of
             None \<Rightarrow> Fault Wild
           | Some st2 \<Rightarrow> Break (st2\<lparr>f := v\<rparr>)))"

definition do_DUP :: "'a vm_scheme \<Rightarrow> 'a vm_scheme outcome" where
  \<comment> \<open>\<^verbatim>\<open>*++S = f;\<close>\<close>
  "do_DUP st = (case push_val st (f st) of None \<Rightarrow> Fault Wild | Some st1 \<Rightarrow> Break st1)"

definition do_OVER :: "'a vm_scheme \<Rightarrow> 'a vm_scheme outcome" where
  \<comment> \<open>\<^verbatim>\<open>w = *S; *++S = f; f = w;\<close>\<close>
  "do_OVER st =
     (if length (m st) \<le> S st then Fault Wild
      else
        case push_val st (f st) of
          None \<Rightarrow> Fault Wild
        | Some st1 \<Rightarrow> Break (st1\<lparr>f := m st ! S st\<rparr>))"

definition do_TAIL :: "'a vm_scheme \<Rightarrow> 'a vm_scheme outcome" where
  \<comment> \<open>\<^verbatim>\<open>m[RSTK]--;\<close>\<close>
  "do_TAIL st = Break (st\<lparr>m := (m st)[RSTK := m st ! RSTK - 1]\<rparr>)"

definition do_BLOCK :: "char \<Rightarrow> 'a vm_scheme \<Rightarrow> 'a vm_scheme outcome" where
  \<comment> \<open>\<^verbatim>\<open>f = blockio(o, m, *S--, f, rw);\<close> for \<^verbatim>\<open>BSAVE\<close> (\<^verbatim>\<open>'w'\<close>) and \<^verbatim>\<open>BLOAD\<close> (\<^verbatim>\<open>'r'\<close>)\<close>
  "do_BLOCK rw st =
     (case pop st of
        None \<Rightarrow> Fault Wild
      | Some (v, st1) \<Rightarrow>
          (case blockio st1 v (f st) rw of
             None \<Rightarrow> Fault Wild
           | Some (r, st2) \<Rightarrow> Break (st2\<lparr>f := of_int r\<rparr>)))"

definition do_FIND :: "nat \<Rightarrow> 'a vm_scheme \<Rightarrow> 'a vm_scheme outcome" where
  \<comment> \<open>\<^verbatim>\<open>*++S = f; if(forth_get_word(o, o->s) < 0) goto end;
       f = find(o) + 2; f = f < DICTIONARY_START ? 0 : f;\<close>\<close>
  "do_FIND n st =
     (case push_val st (f st) of
        None \<Rightarrow> Fault Wild
      | Some st1 \<Rightarrow>
          (case forth_get_word st1 of
             None \<Rightarrow> Fault Wild
           | Some (r, st2) \<Rightarrow>
               if r < 0 then End st2
               else
                 case find_word n st2 of
                   Inl e \<Rightarrow> Fault e
                 | Inr w \<Rightarrow> Break (st2\<lparr>f := (if w + 2 < of_nat DICTIONARY_START then 0 else w + 2)\<rparr>)))"

definition do_PRINT :: "'a vm_scheme \<Rightarrow> 'a vm_scheme outcome" where
  \<comment> \<open>\<^verbatim>\<open>fputs(((char*)m)+f, o->out); f = *S--;\<close>\<close>
  "do_PRINT st =
     (case get_cstr (m st) (unat (f st)) of
        None \<Rightarrow> Fault Wild
      | Some str \<Rightarrow> drop_top (st\<lparr>fout := fout st @ str\<rparr>))"

definition do_PSTK :: "'a vm_scheme \<Rightarrow> 'a vm_scheme outcome" where
  \<comment> \<open>\<^verbatim>\<open>print_stack(o, f, S);\<close>\<close>
  "do_PSTK st = (case print_stack st (f st) (S st) of None \<Rightarrow> Fault Wild | Some st1 \<Rightarrow> Break st1)"

definition bool_cell :: "bool \<Rightarrow> cell" where
  "bool_cell t = (if t then 1 else 0)"

definition execute :: "nat \<Rightarrow> instruction \<Rightarrow> cell \<Rightarrow> 'a vm_scheme \<Rightarrow> 'a vm_scheme outcome" where
  \<comment> \<open>the body of the \<^verbatim>\<open>switch\<close>; \<open>pc\<close> is already incremented\<close>
  "execute n i pc st =
     (case i of
        PUSH \<Rightarrow> do_PUSH st
      | COMPILE \<Rightarrow> do_COMPILE pc st
      | RUN \<Rightarrow> do_RUN pc st
      | DEFINE \<Rightarrow> do_DEFINE st
      | IMMEDIATE \<Rightarrow> do_IMMEDIATE st
      | COMMENT \<Rightarrow> do_COMMENT st
      | READ \<Rightarrow> do_READ n st
      | LOAD \<Rightarrow> do_LOAD st
      | STORE \<Rightarrow> do_STORE st
      | SUB \<Rightarrow> binop (\<lambda>v w. v - w) st
      | ADD \<Rightarrow> binop (\<lambda>v w. v + w) st
      | AND_op \<Rightarrow> binop (\<lambda>v w. v AND w) st
      | OR_op \<Rightarrow> binop (\<lambda>v w. v OR w) st
      | XOR_op \<Rightarrow> binop (\<lambda>v w. v XOR w) st
      | INV \<Rightarrow> Break (st\<lparr>f := NOT (f st)\<rparr>)
      | SHL \<Rightarrow> intop shl st
      | SHR \<Rightarrow> intop shr st
      | MUL \<Rightarrow> intop mul st
      | LESS \<Rightarrow> binop (\<lambda>v w. bool_cell (v < w)) st
      | EXIT \<Rightarrow> do_EXIT st
      | EMIT \<Rightarrow> do_EMIT st
      | KEY \<Rightarrow> do_KEY st
      | FROMR \<Rightarrow> do_FROMR st
      | TOR \<Rightarrow> do_TOR st
      | JMP \<Rightarrow> do_JMP st
      | JMPZ \<Rightarrow> do_JMPZ st
      | PNUM \<Rightarrow> do_PNUM st
      | QUOTE \<Rightarrow> do_PUSH st
      | COMMA \<Rightarrow> do_COMMA st
      | EQUAL \<Rightarrow> binop (\<lambda>v w. bool_cell (v = w)) st
      | SWAP \<Rightarrow> do_SWAP st
      | DUP \<Rightarrow> do_DUP st
      | DROP \<Rightarrow> drop_top st
      | OVER \<Rightarrow> do_OVER st
      | TAIL \<Rightarrow> do_TAIL st
      | BSAVE \<Rightarrow> do_BLOCK CHR ''w'' st
      | BLOAD \<Rightarrow> do_BLOCK CHR ''r'' st
      | FIND \<Rightarrow> do_FIND n st
      | PRINT \<Rightarrow> do_PRINT st
      | PSTK \<Rightarrow> do_PSTK st)"

definition dispatch :: "nat \<Rightarrow> cell \<Rightarrow> 'a vm_scheme \<Rightarrow> 'a vm_scheme outcome" where
  \<comment> \<open>\<^verbatim>\<open>INNER: switch (b(m[ck(pc++)]))\<close>, an opcode from \<^verbatim>\<open>LAST\<close> on reaching \<^verbatim>\<open>default\<close>\<close>
  "dispatch n pc st =
     (if \<not> ck st pc then Longjmp st
      else
        case decode (b (m st ! unat pc)) of
          None \<Rightarrow> Longjmp st
        | Some i \<Rightarrow> execute n i (pc + 1) st)"

datatype 'a stop =
    Ended 'a  \<comment> \<open>control reached the label \<^verbatim>\<open>end\<close>\<close>
  | Jumped 'a  \<comment> \<open>\<^verbatim>\<open>longjmp\<close> back to the \<^verbatim>\<open>setjmp\<close>\<close>
  | Asserted  \<comment> \<open>the \<^verbatim>\<open>assert\<close> at the head of the loop failed\<close>
  | Stuck fault

fun threaded :: "nat \<Rightarrow> cell option \<Rightarrow> 'a vm_scheme \<Rightarrow> 'a vm_scheme stop" where
  \<comment> \<open>the \<^verbatim>\<open>for\<close> loop, entered at its head (\<open>None\<close>) or at \<^verbatim>\<open>INNER\<close> with \<open>pc\<close>\<close>
  "threaded 0 entry st = Stuck Spin"
| "threaded (Suc n) None st =
     (let i = I st; st1 = st\<lparr>I := i + 1\<rparr> in
      if \<not> ck st1 i then Jumped st1
      else
        let pc = m st1 ! unat i in
        if pc = 0 then Ended st1
        else if \<not> (0 < S st1 \<and> S st1 < core_size st1) then Asserted
        else threaded n (Some pc) st1)"
| "threaded (Suc n) (Some pc) st =
     (case dispatch n pc st of
        Break st1 \<Rightarrow> threaded n None st1
      | Inner pc1 st1 \<Rightarrow> threaded n (Some pc1) st1
      | End st1 \<Rightarrow> Ended st1
      | Longjmp st1 \<Rightarrow> Jumped st1
      | Fault e \<Rightarrow> Stuck e)"

datatype run_result =
    Returned int forth  \<comment> \<open>the value returned and the core as left\<close>
  | Aborted  \<comment> \<open>\<^verbatim>\<open>assert\<close> ended the process\<close>
  | Undefined fault

definition enter :: "forth \<Rightarrow> vm" where
  \<comment> \<open>\<^verbatim>\<open>f = o->top; m = o->m, S = o->S, I = o->I;\<close>\<close>
  "enter ob = forth.extend ob (vm.fields (o_S ob) (o_I ob) (o_top ob))"

definition forth_run :: "nat \<Rightarrow> forth \<Rightarrow> run_result" where
  \<comment> \<open>\<open>n\<close> bounds the passes through the loop head and the \<^verbatim>\<open>switch\<close>\<close>
  "forth_run n ob =
     (if invalid ob then Returned (- 1) (ob\<lparr>invalid := True\<rparr>)
      else
        case threaded n None (enter ob) of
          Ended st \<Rightarrow> Returned 0 ((forth.truncate st)\<lparr>o_top := f st\<rparr>)
        | Jumped st \<Rightarrow> Returned (- 1) ((forth.truncate st)\<lparr>invalid := True\<rparr>)
        | Asserted \<Rightarrow> Aborted
        | Stuck e \<Rightarrow> Undefined e)"

definition forth_set_string_input :: "forth \<Rightarrow> string \<Rightarrow> forth" where
  "forth_set_string_input ob str = ob\<lparr>sidx := 0, slen := length str + 1, stringin := True, sin := str\<rparr>"

definition forth_eval :: "nat \<Rightarrow> forth \<Rightarrow> string \<Rightarrow> run_result" where
  "forth_eval n ob str = forth_run n (forth_set_string_input ob str)"

definition forth_stack_position :: "forth \<Rightarrow> cell" where
  "forth_stack_position ob = of_nat (o_S ob)"

definition forth_pop :: "forth \<Rightarrow> (cell \<times> forth) option" where
  \<comment> \<open>\<^verbatim>\<open>assert(o && o->S > o->m); f = o->top; o->top = *(o->S)--; return f;\<close>
     with \<open>None\<close> for the failed assertion or a stack pointer beyond the image\<close>
  "forth_pop ob =
     (if 0 < o_S ob \<and> o_S ob < length (m ob)
      then Some (o_top ob, ob\<lparr>o_top := m ob ! o_S ob, o_S := o_S ob - 1\<rparr>) else None)"

section \<open>Reference descriptions\<close>

text \<open>
  The number syntax in words: an optional \<^verbatim>\<open>-\<close>, then \<^verbatim>\<open>0x\<close> and at least one
  hexadecimal digit, or \<^verbatim>\<open>0\<close> and octal digits only, or at least one decimal digit and
  decimal digits only.  \<open>number_syntax True\<close> reads the three alternatives side by side;
  \<open>number_syntax False\<close> lets the decimal alternative apply only when the first character
  is not \<^verbatim>\<open>0\<close>.
\<close>

definition digits_of :: "string \<Rightarrow> string \<Rightarrow> bool" where
  "digits_of accept ds \<longleftrightarrow> list_all (\<lambda>c. c \<in> set accept) ds"

definition unsigned_syntax :: "bool \<Rightarrow> string \<Rightarrow> bool" where
  "unsigned_syntax overlap t \<longleftrightarrow>
     (take 2 t = ''0x'' \<and> drop 2 t \<noteq> [] \<and> digits_of ''0123456789abcdefABCDEF'' (drop 2 t))
   \<or> (take 1 t = ''0'' \<and> digits_of ''01234567'' (drop 1 t))
   \<or> (t \<noteq> [] \<and> (overlap \<or> take 1 t \<noteq> ''0'') \<and> digits_of ''0123456789'' t)"

definition number_syntax :: "bool \<Rightarrow> string \<Rightarrow> bool" where
  "number_syntax overlap str \<longleftrightarrow>
     unsigned_syntax overlap str \<or> (take 1 str = ''-'' \<and> unsigned_syntax overlap (drop 1 str))"

text \<open>
  A core of the default size, \<^verbatim>\<open>CORE_SIZE = (UINT16_MAX + 1) / 2\<close> cells, with an empty image, no
  block files, and a file system that takes every block in full.
\<close>

definition default_core :: forth where
  "default_core =
     \<lparr>fin = [], fout = [], sin = [], slen = 0, sidx = 0, stringin = False, invalid = False,
      core_size = 32768, stack_size = 512, o_I = 66, o_top = 0, o_S = 31744,
      m = replicate 32768 0, files = [], wroom = (\<lambda>name. Some BLOCK_SIZE)\<rparr>"

text \<open>
  The struct members that no primitive is meant to touch, for the frame properties of
  \<^verbatim>\<open>forth_run\<close>.
\<close>

definition frame :: "'a forth_scheme \<Rightarrow> nat \<times> cell \<times> bool \<times> nat \<times> nat" where
  "frame st = (o_S st, o_I st, invalid st, core_size st, stack_size st)"

text \<open>
  A small core for concrete runs: 96 cells, the self-dispatching program of \<^verbatim>\<open>forth_init\<close> at
  cells 64 to 67 (\<^verbatim>\<open>READ\<close>, \<^verbatim>\<open>RUN\<close>, 64, 65), and one word as \<^verbatim>\<open>compile(o, COMPILE, "@")\<close>
  followed by \<^verbatim>\<open>m[m[DIC]++] = LOAD\<close> lays it out: the name in cell 68, the link field 69
  holding the terminator 1, the code cell 70 holding \<^verbatim>\<open>(1 << 8) | COMPILE\<close>, the body 71
  holding \<^verbatim>\<open>LOAD\<close>.  The parameter stack starts at 80, the return stack at 88.
\<close>

definition tiny_core :: forth where
  "tiny_core =
     \<lparr>fin = [], fout = [], sin = [], slen = 0, sidx = 0, stringin = False, invalid = False,
      core_size = 96, stack_size = 8, o_I = 66, o_top = 0, o_S = 80,
      m = (replicate 96 0)[0 := 72, 1 := 88, 10 := 69, 11 := 2, 12 := 96,
            64 := 6, 65 := 2, 66 := 64, 67 := 65, 68 := 64, 69 := 1, 70 := 257, 71 := 7],
      files = [], wroom = (\<lambda>name. Some BLOCK_SIZE)\<rparr>"

definition tiny_input :: "cell \<Rightarrow> string \<Rightarrow> forth" where
  \<comment> \<open>the small core with \<open>t\<close> pushed by the host and \<open>str\<close> set as its input\<close>
  "tiny_input t str = forth_set_string_input (tiny_core\<lparr>o_top := t\<rparr>) str"

definition at_word :: "cell \<Rightarrow> string \<Rightarrow> vm" where
  \<comment> \<open>in \<^verbatim>\<open>forth_run\<close> on that core, as the first \<^verbatim>\<open>READ\<close> is dispatched\<close>
  "at_word t str = (enter (tiny_input t str))\<lparr>I := 67\<rparr>"

definition at_read :: "cell \<Rightarrow> string \<Rightarrow> cell \<Rightarrow> vm" where
  \<comment> \<open>after \<^verbatim>\<open>READ\<close> has taken a one-letter word, now in the string buffer as the cell \<open>c\<close>\<close>
  "at_read t str c = (at_word t str)\<lparr>sidx := 1, m := (m tiny_core)[RSTK := 87, 32 := c]\<rparr>"

definition at_pushed :: "cell \<Rightarrow> vm" where
  \<comment> \<open>after \<^verbatim>\<open>READ\<close> has taken the word \<^verbatim>\<open>7\<close> and pushed the old top\<close>
  "at_pushed t = (at_read t ''7'' 55)\<lparr>S := 81, m := (m (at_read t ''7'' 55))[81 := t]\<rparr>"

abbreviation keeps :: "'a vm_scheme \<Rightarrow> 'a vm_scheme outcome \<Rightarrow> bool" where
  "keeps st r \<equiv> pred_outcome (\<lambda>st'. frame st' = frame st) r"

text \<open>
  For statements about one primitive: \<open>completes_with P r\<close> holds when the primitive, if it
  leaves the \<^verbatim>\<open>switch\<close> by \<^verbatim>\<open>break\<close>, \<^verbatim>\<open>goto INNER\<close> or \<^verbatim>\<open>goto end\<close>, does so in a state
  satisfying \<open>P\<close>; \<open>grows st st'\<close> says that the dictionary pointer of \<open>st'\<close> is not below that
  of \<open>st\<close>, in an image of the same size.
\<close>

definition completes_with :: "('a \<Rightarrow> bool) \<Rightarrow> 'a outcome \<Rightarrow> bool" where
  "completes_with P r =
     (case r of Break st \<Rightarrow> P st | Inner pc st \<Rightarrow> P st | End st \<Rightarrow> P st
      | Longjmp st \<Rightarrow> True | Fault e \<Rightarrow> True)"

definition grows :: "'a forth_scheme \<Rightarrow> 'a forth_scheme \<Rightarrow> bool" where
  "grows st st' \<longleftrightarrow>
     m st ! DIC \<le> m st' ! DIC \<and> length (m st') = length (m st) \<and> core_size st' = core_size st"

text \<open>
  For the number round trip: \<open>after_word st w\<close> is the interpreter state once \<^verbatim>\<open>READ\<close> has
  decremented \<^verbatim>\<open>RSTK\<close> and \<^verbatim>\<open>forth_get_word\<close> has taken the word \<open>w\<close> from the string input;
  a \<open>plain_word\<close> is what \<^verbatim>\<open>%31s\<close> takes whole.
\<close>

definition after_word :: "'a forth_scheme \<Rightarrow> string \<Rightarrow> 'a forth_scheme" where
  "after_word st w =
     st\<lparr>sidx := sidx st + length w,
        m := put_bytes ((m st)[RSTK := m st ! RSTK - 1]) s_offset (w @ [NUL])\<rparr>"

definition plain_word :: "string \<Rightarrow> bool" where
  "plain_word w \<longleftrightarrow> w \<noteq> [] \<and> length w < MAX_WORD_LENGTH \<and> list_all (\<lambda>c. \<not> isspace c \<and> c \<noteq> NUL) w"

text \<open>
  The small core with its one word renamed from \<^verbatim>\<open>@\<close> to \<^verbatim>\<open>7\<close> (as after \<^verbatim>\<open>: 7 ... ;\<close>), at the
  dispatch of \<^verbatim>\<open>READ\<close> on the input \<^verbatim>\<open>7\<close>, and once the word has been taken.
\<close>

definition seven_word :: "cell \<Rightarrow> vm" where
  "seven_word t = (at_word t ''7'')\<lparr>m := (m tiny_core)[68 := 55]\<rparr>"

definition seven_read :: "cell \<Rightarrow> vm" where
  "seven_read t = (seven_word t)\<lparr>sidx := 1, m := (m tiny_core)[68 := 55, RSTK := 87, 32 := 55]\<rparr>"

text \<open>
  What \<^verbatim>\<open>forth_init\<close> compiles first and every run starts from.  With
  \<^verbatim>\<open>w = m[DIC] = DICTIONARY_START\<close>, the statements \<^verbatim>\<open>m[m[DIC]++] = READ; m[m[DIC]++] = RUN;\<close>
  \<^verbatim>\<open>o->I = m[DIC]; m[m[DIC]++] = w; m[m[DIC]++] = o->I - 1;\<close> leave \<^verbatim>\<open>READ\<close>, \<^verbatim>\<open>RUN\<close>, 64 and
  65 in the cells 64 to 67 and the instruction pointer of the core at 66; \<^verbatim>\<open>forth_run\<close> never
  stores another.
\<close>

definition read_loop :: "forth \<Rightarrow> bool" where
  "read_loop ob \<longleftrightarrow>
     o_I ob = of_nat (DICTIONARY_START + 2)
     \<and> m ob ! DICTIONARY_START = opcode READ
     \<and> m ob ! (DICTIONARY_START + 1) = opcode RUN
     \<and> m ob ! (DICTIONARY_START + 2) = of_nat DICTIONARY_START
     \<and> m ob ! (DICTIONARY_START + 3) = of_nat (DICTIONARY_START + 1)"

text \<open>
  Three cores for runs on the literal \<^verbatim>\<open>7\<close>, each with the state \<^verbatim>\<open>forth_eval\<close> leaves: the small
  core (\<open>tiny_after\<close>); the small core with its one word renamed from \<^verbatim>\<open>@\<close> to \<^verbatim>\<open>7\<close>, as after
  \<^verbatim>\<open>: 7 ... ;\<close> (\<open>seven_core\<close>, \<open>seven_after\<close>); and the small core with 3 on top and its stack
  pointer at cell 31, just below the string buffer, as after popping beyond the bottom of
  the stack (\<open>low_core\<close>, with the interpreter states of its run up to \<open>low_after\<close>).
\<close>

definition seven_core :: "cell \<Rightarrow> forth" where
  "seven_core t = tiny_core\<lparr>o_top := t, m := (m tiny_core)[68 := 55]\<rparr>"

definition tiny_after :: "cell \<Rightarrow> forth" where
  "tiny_after t =
     (forth.truncate ((at_pushed t)\<lparr>f := 7, I := 67, m := (m (at_pushed t))[88 := 68]\<rparr>))\<lparr>o_top := 7\<rparr>"

definition seven_after :: "cell \<Rightarrow> forth" where
  "seven_after t =
     (forth.truncate ((seven_read t)\<lparr>f := 69, I := 67, m := (m (seven_read t))[88 := 68]\<rparr>))\<lparr>o_top := 69\<rparr>"

definition low_core :: forth where
  "low_core = tiny_core\<lparr>o_top := 3, o_S := 31\<rparr>"

definition low_word :: vm where
  "low_word = (enter (forth_set_string_input low_core ''7''))\<lparr>I := 67\<rparr>"

definition low_read :: vm where
  "low_read = low_word\<lparr>sidx := 1, m := (m tiny_core)[RSTK := 87, 32 := 55]\<rparr>"

definition low_pushed :: vm where
  "low_pushed = low_read\<lparr>S := 32, m := (m tiny_core)[RSTK := 87, 32 := 3], f := 0\<rparr>"

definition low_after :: forth where
  "low_after =
     (forth.truncate (low_pushed\<lparr>I := 67, m := (m low_pushed)[88 := 68]\<rparr>))\<lparr>o_top := 0\<rparr>"

section \<open>Properties\<close>

subsection \<open>Number recognition\<close>

lemma cidx_NUL: "NUL \<notin> set s \<Longrightarrow> cidx s k = NUL \<longleftrightarrow> length s \<le> k"
  by (metis cidx_def nth_mem linorder_not_less)

lemma strspn_full: "strspn s A = length s \<longleftrightarrow> digits_of A s"
  unfolding strspn_def digits_of_def list_all_iff
  by (induction s) auto

lemma strspn_NUL:
  assumes "NUL \<notin> set s"
  shows "cidx s (strspn s A) = NUL \<longleftrightarrow> digits_of A s"
proof -
  have "strspn s A \<le> length s" by (simp add: strspn_def length_takeWhile_le)
  then have "length s \<le> strspn s A \<longleftrightarrow> strspn s A = length s" by linarith
  then show ?thesis by (simp only: cidx_NUL [OF assms] strspn_full)
qed

lemma strspn2_NUL:
  assumes "NUL \<notin> set s" "2 \<le> length s"
  shows "cidx s (strspn (drop 2 s) A + 2) = NUL \<longleftrightarrow> digits_of A (drop 2 s)"
proof -
  have "strspn (drop 2 s) A \<le> length (drop 2 s)"
    by (simp only: strspn_def length_takeWhile_le)
  then have "length s \<le> strspn (drop 2 s) A + 2 \<longleftrightarrow> strspn (drop 2 s) A = length (drop 2 s)"
    using assms(2) by (simp only: length_drop) linarith
  then show ?thesis by (simp only: cidx_NUL [OF assms(1)] strspn_full)
qed

lemma NUL_neq [simp]:
  "CHR ''-'' \<noteq> NUL" "CHR ''0'' \<noteq> NUL" "CHR ''x'' \<noteq> NUL"
  "NUL \<noteq> CHR ''-''" "NUL \<noteq> CHR ''0''" "NUL \<noteq> CHR ''x''"
  by (simp_all add: NUL_def)

lemma cidx_simps [simp]:
  "cidx [] k = NUL" "cidx (c # t) 0 = c" "cidx (c # t) (Suc k) = cidx t k"
  by (simp_all add: cidx_def)

lemma digits_of_simps [simp]:
  "digits_of A []" "digits_of A (c # t) \<longleftrightarrow> c \<in> set A \<and> digits_of A t"
  by (simp_all add: digits_of_def)

lemma unsigned_number:
  assumes "NUL \<notin> set s"
  shows "(if cidx s 0 = CHR ''0'' then
            if cidx s 1 = CHR ''x'' then
              cidx s (strspn (drop 2 s) ''0123456789abcdefABCDEF'' + 2) = NUL \<and> cidx s 2 \<noteq> NUL
            else cidx s (strspn s ''01234567'') = NUL
          else cidx s (strspn s ''0123456789'') = NUL \<and> cidx s 0 \<noteq> NUL)
         \<longleftrightarrow> unsigned_syntax False s"
proof (cases s)
  case Nil
  then show ?thesis by (simp add: unsigned_syntax_def)
next
  case (Cons c t)
  note s = Cons
  have c0: "c \<noteq> NUL" using assms s by auto
  show ?thesis
  proof (cases "c = CHR ''0''")
    case False
    have "cidx s (strspn s ''0123456789'') = NUL \<longleftrightarrow> digits_of ''0123456789'' s"
      by (rule strspn_NUL [OF assms])
    then show ?thesis using False c0
      by (simp add: s unsigned_syntax_def)
  next
    case True
    note c = True
    have oct: "cidx s (strspn s ''01234567'') = NUL \<longleftrightarrow> digits_of ''01234567'' s"
      by (rule strspn_NUL [OF assms])
    show ?thesis
    proof (cases t)
      case Nil
      then show ?thesis using oct by (simp add: s c unsigned_syntax_def)
    next
      case (Cons d u)
      have len: "2 \<le> length s" using s Cons by simp
      have hex: "cidx s (strspn (drop 2 s) ''0123456789abcdefABCDEF'' + 2) = NUL
          \<longleftrightarrow> digits_of ''0123456789abcdefABCDEF'' (drop 2 s)"
        by (rule strspn2_NUL [OF assms len])
      have u: "cidx u 0 \<noteq> NUL \<longleftrightarrow> u \<noteq> []" using assms s Cons by (cases u) auto
      show ?thesis
      proof (cases "d = CHR ''x''")
        case True
        then show ?thesis using hex u
          by (auto simp add: s c Cons unsigned_syntax_def numeral_2_eq_2)
      next
        case False
        then show ?thesis using oct
          by (simp add: s c Cons unsigned_syntax_def numeral_2_eq_2)
      qed
    qed
  qed
qed


lemma is_number_iff:
  assumes "NUL \<notin> set s"
  shows "is_number s \<longleftrightarrow> number_syntax False s"
proof (cases "cidx s 0 = CHR ''-''")
  case True
  then obtain t where s: "s = CHR ''-'' # t" by (cases s) (auto simp: cidx_def)
  then have t: "NUL \<notin> set t" using assms by simp
  have "\<not> unsigned_syntax False s" using s by (simp add: unsigned_syntax_def digits_of_def)
  then show ?thesis using unsigned_number [OF t] s True
    by (simp add: is_number_def number_syntax_def)
next
  case False
  then have "take 1 s \<noteq> ''-''" by (cases s) (auto simp: cidx_def)
  then show ?thesis using unsigned_number [OF assms] False
    by (simp add: is_number_def number_syntax_def)
qed

text \<open>
  C8, as amended.  For every C string \<open>s\<close>, \<^verbatim>\<open>is_number\<close> returns true exactly when \<open>s\<close> is an
  optional leading \<^verbatim>\<open>-\<close> followed by \<^verbatim>\<open>0x\<close> and at least one hexadecimal digit (and
  nothing else), or by \<^verbatim>\<open>0\<close> and octal digits only, or by at least one decimal digit,
  the first of them not \<^verbatim>\<open>0\<close>, and decimal digits only.  The empty string and \<^verbatim>\<open>-\<close> alone
  are not numbers.
\<close>

theorem is_number_syntax:
  assumes "NUL \<notin> set s"
  shows "is_number s \<longleftrightarrow> number_syntax False s"
  using assms by (rule is_number_iff)

theorem is_number_syntax_witness:
  "NUL \<notin> set ''-0x1F'' \<and> is_number ''-0x1F'' \<and> number_syntax False ''-0x1F''
   \<and> \<not> is_number [] \<and> \<not> is_number ''-''"
  using is_number_syntax [of "''-0x1F''"] is_number_syntax [of "[]"] is_number_syntax [of "''-''"]
  by (simp add: number_syntax_def unsigned_syntax_def digits_of_def NUL_def)

text \<open>
  C8 as stated fails: \<^verbatim>\<open>09\<close> is made of decimal digits only, and is refused because a
  leading \<^verbatim>\<open>0\<close> selects the octal digits.
\<close>

theorem is_number_leading_zero_counterexample:
  "NUL \<notin> set ''09'' \<and> number_syntax True ''09'' \<and> \<not> is_number ''09''"
  by (simp add: is_number_def number_syntax_def unsigned_syntax_def digits_of_def cidx_def
      strspn_def NUL_def)

subsection \<open>Block transfers\<close>

text \<open>
  C7 fails on the code.  The guard of \<^verbatim>\<open>blockio\<close> compares the offset, which \<^verbatim>\<open>fread\<close> and
  \<^verbatim>\<open>fwrite\<close> add to the image as a \<^verbatim>\<open>char\<close> pointer, with \<^verbatim>\<open>core_size - BLOCK_SIZE\<close>, where
  \<^verbatim>\<open>core_size\<close> counts cells of two bytes.  On the default core of 32768 cells (65536 bytes)
  the block at byte offset 40000 lies inside the image and below
  \<^verbatim>\<open>core_size_in_bytes - BLOCK_SIZE\<close> = 64512, yet \<^verbatim>\<open>blockio\<close> returns \<open>-1\<close> in both modes without
  opening a file; at offset 31744 the transfer is made, and takes the 1024 bytes that start
  at byte 31744 of the image.
\<close>

theorem blockio_refuses_block_inside_image:
  "unat (40000 :: cell) \<le> cell_bytes * core_size default_core - BLOCK_SIZE
   \<and> unat (40000 :: cell) + BLOCK_SIZE \<le> cell_bytes * length (m default_core)
   \<and> blockio default_core 40000 1 CHR ''w'' = Some (- 1, default_core)
   \<and> blockio default_core 40000 1 CHR ''r'' = Some (- 1, default_core)
   \<and> blockio default_core 31744 1 CHR ''w''
       = Some (0, default_core\<lparr>files := [(block_name 1, get_bytes (m default_core) 31744 BLOCK_SIZE)]\<rparr>)"
  by (simp add: blockio_def default_core_def size_sub_def)


subsection \<open>What the primitives leave alone\<close>

lemma frame_updates [simp]:
  "frame (st\<lparr>m := img\<rparr>) = frame st"
  "frame (st\<lparr>fin := a\<rparr>) = frame st"
  "frame (st\<lparr>fout := a\<rparr>) = frame st"
  "frame (st\<lparr>sidx := k\<rparr>) = frame st"
  "frame (st\<lparr>files := fs\<rparr>) = frame st"
  by (simp_all add: frame_def)

lemma frame_vm_updates [simp]:
  "frame (vst\<lparr>S := k\<rparr>) = frame vst"
  "frame (vst\<lparr>I := c\<rparr>) = frame vst"
  "frame (vst\<lparr>f := c\<rparr>) = frame vst"
  by (simp_all add: frame_def)

lemma frame_get_char: "forth_get_char st = Some (c, st') \<Longrightarrow> frame st' = frame st"
  by (auto simp: forth_get_char_def split: if_splits list.splits)

lemma frame_get_word: "forth_get_word st = Some (r, st') \<Longrightarrow> frame st' = frame st"
  by (auto simp: forth_get_word_def split: if_splits option.splits)

lemma frame_comment: "comment st = Some (c, st') \<Longrightarrow> frame st' = frame st"
proof (induction st rule: comment.induct)
  case (1 st)
  show ?case
  proof (cases "forth_get_char st")
    case None
    with "1.prems" show ?thesis by (simp add: comment.simps [of st])
  next
    case (Some p)
    obtain d st1 where p: "p = (d, st1)" by (cases p)
    have fr: "frame st1 = frame st" using Some p frame_get_char by blast
    show ?thesis
    proof (cases "d > 0 \<and> d \<noteq> of_char CHR 0x0A")
      case True
      then have "comment st = comment st1" using Some p by (simp add: comment.simps [of st])
      then show ?thesis using "1.IH" [OF Some p [symmetric] True] "1.prems" fr by simp
    next
      case False
      then show ?thesis using Some p "1.prems" fr by (auto simp: comment.simps [of st])
    qed
  qed
qed

lemma frame_compile: "compile st code str = Some (r, st') \<Longrightarrow> frame st' = frame st"
  by (auto simp: compile_def Let_def dest!: frame_get_word split: if_splits option.splits prod.splits)

lemma frame_blockio: "blockio st p i rw = Some (r, st') \<Longrightarrow> frame st' = frame st"
  by (auto simp: blockio_def Let_def split: if_splits option.splits)

lemma frame_print_stack: "print_stack st t k = Some st' \<Longrightarrow> frame st' = frame st"
  by (auto simp: print_stack_def Let_def split: if_splits)

lemma frame_push_val: "push_val st v = Some st' \<Longrightarrow> frame st' = frame st"
  by (auto simp: push_val_def split: if_splits)

lemma frame_pop: "pop st = Some (v, st') \<Longrightarrow> frame st' = frame st"
  by (auto simp: pop_def split: if_splits)

lemma keeps_then_do:
  assumes "keeps st r" "\<And>st1. frame st1 = frame st \<Longrightarrow> keeps st1 (k st1)"
  shows "keeps st (then_do r k)"
proof (cases r)
  case (Break st1)
  then have fr: "frame st1 = frame st" using assms(1) by simp
  show ?thesis using assms(2) [OF fr] by (simp add: then_do_def Break fr)
qed (use assms(1) in \<open>simp_all add: then_do_def\<close>)

lemma keeps_drop_top: "keeps st (drop_top st)"
  by (auto simp: drop_top_def dest!: frame_pop split: option.splits)

lemma keeps_binop: "keeps st (binop g st)"
  by (auto simp: binop_def dest!: frame_pop split: option.splits)

lemma keeps_intop: "keeps st (intop g st)"
  by (auto simp: intop_def dest!: frame_pop split: option.splits)

lemma keeps_dic_append: "keeps st (dic_append st v)"
  by (simp add: dic_append_def Let_def)

lemma keeps_rpush: "keeps st (rpush st v)"
  by (simp add: rpush_def Let_def)

lemma frame_rpop: "rpop st = Inl st' \<Longrightarrow> frame st' = frame st"
  "rpop st = Inr (v, st') \<Longrightarrow> frame st' = frame st"
  by (auto simp: rpop_def Let_def split: if_splits)

lemma keeps_PUSH: "keeps st (do_PUSH st)"
  by (auto simp: do_PUSH_def Let_def dest!: frame_push_val split: option.splits)

lemma keeps_RUN: "keeps st (do_RUN pc st)"
  unfolding do_RUN_def by (rule keeps_then_do [OF keeps_rpush]) simp

lemma keeps_DEFINE: "keeps st (do_DEFINE st)"
proof (cases "compile (st\<lparr>m := (m st)[STATE := 1]\<rparr>) (opcode COMPILE) None")
  case None
  then show ?thesis by (simp add: do_DEFINE_def)
next
  case (Some p)
  obtain r st1 where p: "p = (r, st1)" by (cases p)
  have "frame st1 = frame st" using frame_compile [OF Some [unfolded p]] by simp
  then show ?thesis using keeps_dic_append [of st1 "opcode RUN"] Some [unfolded p]
    by (simp add: do_DEFINE_def)
qed

lemma keeps_IMMEDIATE: "keeps st (do_IMMEDIATE st)"
  by (simp add: do_IMMEDIATE_def Let_def)

lemma keeps_COMMENT: "keeps st (do_COMMENT st)"
  by (auto simp: do_COMMENT_def dest!: frame_comment split: option.splits)

lemma keeps_READ: "keeps st (do_READ n st)"
proof (cases "ck st (of_nat RSTK)")
  case False
  then show ?thesis by (simp add: do_READ_def)
next
  case True
  show ?thesis
  proof (cases "forth_get_word (st\<lparr>m := (m st)[RSTK := m st ! RSTK - 1]\<rparr>)")
    case None
    then show ?thesis using True by (simp add: do_READ_def)
  next
    case (Some p)
    obtain r st1 where p: "p = (r, st1)" by (cases p)
    have fr: "frame st1 = frame st" using frame_get_word [OF Some [unfolded p]] by simp
    have app: "\<And>img v. keeps st (dic_append (st1\<lparr>m := img\<rparr>) v)"
      using keeps_dic_append fr by (metis frame_updates(1))
    have psh: "\<And>st2 v. push_val st1 v = Some st2 \<Longrightarrow> frame st2 = frame st"
      using frame_push_val fr by metis
    show ?thesis using True fr app psh Some [unfolded p]
      by (simp add: do_READ_def Let_def split: sum.splits option.splits)
  qed
qed

lemma keeps_LOAD: "keeps st (do_LOAD st)"
  by (simp add: do_LOAD_def)

lemma keeps_STORE: "keeps st (do_STORE st)"
proof (cases "pop st")
  case None
  then show ?thesis by (simp add: do_STORE_def)
next
  case (Some p)
  obtain v st1 where p: "p = (v, st1)" by (cases p)
  have fr: "frame st1 = frame st" using frame_pop [OF Some [unfolded p]] .
  show ?thesis using keeps_drop_top [of "st1\<lparr>m := (m st1)[unat (f st) := v]\<rparr>"] fr
    by (simp add: do_STORE_def Some p)
qed

lemma keeps_EXIT: "keeps st (do_EXIT st)"
  by (auto simp: do_EXIT_def dest: frame_rpop split: sum.splits)

lemma keeps_EMIT: "keeps st (do_EMIT st)"
  using keeps_drop_top [of "st\<lparr>fout := fout st @ [char_of (unat (f st))]\<rparr>"]
  by (simp add: do_EMIT_def)

lemma keeps_KEY: "keeps st (do_KEY st)"
  by (auto simp: do_KEY_def dest!: frame_push_val frame_get_char split: option.splits)

lemma keeps_FROMR: "keeps st (do_FROMR st)"
  by (auto simp: do_FROMR_def dest!: frame_push_val frame_rpop split: option.splits sum.splits)

lemma keeps_TOR: "keeps st (do_TOR st)"
  unfolding do_TOR_def
proof (rule keeps_then_do [OF keeps_rpush])
  fix st1 :: "'a vm_scheme"
  show "keeps st1 (drop_top st1)" by (rule keeps_drop_top)
qed

lemma keeps_JMP: "keeps st (do_JMP st)"
  by (simp add: do_JMP_def)

lemma keeps_JMPZ: "keeps st (do_JMPZ st)"
  using keeps_drop_top [of "st\<lparr>I := I st + m st ! unat (I st)\<rparr>"]
    keeps_drop_top [of "st\<lparr>I := I st + 1\<rparr>"]
  by (simp add: do_JMPZ_def)

lemma keeps_PNUM: "keeps st (do_PNUM st)"
  using keeps_drop_top [of "st\<lparr>fout := fout st @ print_cell st True (f st)\<rparr>"]
  by (simp add: do_PNUM_def)

lemma keeps_COMMA: "keeps st (do_COMMA st)"
  unfolding do_COMMA_def
proof (rule keeps_then_do [OF keeps_dic_append])
  fix st1 :: "'a vm_scheme"
  show "keeps st1 (drop_top st1)" by (rule keeps_drop_top)
qed

lemma keeps_SWAP: "keeps st (do_SWAP st)"
  by (auto simp: do_SWAP_def dest!: frame_push_val frame_pop split: option.splits)

lemma keeps_DUP: "keeps st (do_DUP st)"
  by (auto simp: do_DUP_def dest!: frame_push_val split: option.splits)

lemma keeps_OVER: "keeps st (do_OVER st)"
  by (auto simp: do_OVER_def dest!: frame_push_val split: option.splits)

lemma keeps_TAIL: "keeps st (do_TAIL st)"
  by (simp add: do_TAIL_def)

lemma keeps_BLOCK: "keeps st (do_BLOCK rw st)"
  by (auto simp: do_BLOCK_def dest!: frame_pop frame_blockio split: option.splits)

lemma keeps_FIND: "keeps st (do_FIND n st)"
  by (auto simp: do_FIND_def dest!: frame_push_val frame_get_word split: option.splits sum.splits)

lemma keeps_PRINT: "keeps st (do_PRINT st)"
proof (cases "get_cstr (m st) (unat (f st))")
  case None
  then show ?thesis by (simp add: do_PRINT_def)
next
  case (Some str)
  then show ?thesis using keeps_drop_top [of "st\<lparr>fout := fout st @ str\<rparr>"]
    by (simp add: do_PRINT_def)
qed

lemma keeps_PSTK: "keeps st (do_PSTK st)"
  by (auto simp: do_PSTK_def dest!: frame_print_stack split: option.splits)

lemma keeps_execute: "keeps st (execute n i pc st)"
  by (cases i)
    (simp_all add: execute_def do_COMPILE_def keeps_PUSH keeps_dic_append keeps_RUN keeps_DEFINE
      keeps_IMMEDIATE keeps_COMMENT keeps_READ keeps_LOAD keeps_STORE keeps_binop keeps_intop
      keeps_EXIT
      keeps_EMIT keeps_KEY keeps_FROMR keeps_TOR keeps_JMP keeps_JMPZ keeps_PNUM keeps_COMMA
      keeps_SWAP keeps_DUP keeps_drop_top keeps_OVER keeps_TAIL keeps_BLOCK keeps_FIND
      keeps_PRINT keeps_PSTK)

lemma keeps_dispatch: "keeps st (dispatch n pc st)"
  by (simp add: dispatch_def keeps_execute split: option.splits)

lemma threaded_frame:
  "threaded n entry st = Ended st' \<or> threaded n entry st = Jumped st' \<Longrightarrow> frame st' = frame st"
proof (induction n arbitrary: entry st)
  case 0
  then show ?case by simp
next
  case (Suc n)
  show ?case
  proof (cases entry)
    case None
    let ?st1 = "st\<lparr>I := I st + 1\<rparr>"
    have fr: "frame ?st1 = frame st" by simp
    from Suc.prems None show ?thesis
      using Suc.IH [of "Some (m ?st1 ! unat (I st))" ?st1] fr
      by (auto simp: Let_def split: if_splits)
  next
    case (Some pc)
    have k: "keeps st (dispatch n pc st)" by (rule keeps_dispatch)
    show ?thesis
    proof (cases "dispatch n pc st")
      case (Break st1)
      then show ?thesis using Suc.prems Some k Suc.IH [of None st1] by auto
    next
      case (Inner pc1 st1)
      then show ?thesis using Suc.prems Some k Suc.IH [of "Some pc1" st1] by auto
    next
      case (End st1)
      then show ?thesis using Suc.prems Some k by auto
    next
      case (Longjmp st1)
      then show ?thesis using Suc.prems Some k by auto
    next
      case (Fault e)
      then show ?thesis using Suc.prems Some by auto
    qed
  qed
qed

subsection \<open>Single primitives\<close>

lemma execute_STORE:
  assumes "ck st (f st)" "1 < S st" "S st < length (m st)"
  shows "execute n STORE pc st =
           Break (st\<lparr>S := S st - 2, m := (m st)[unat (f st) := m st ! S st],
                     f := (m st)[unat (f st) := m st ! S st] ! (S st - 1)\<rparr>)"
  using assms by (simp add: execute_def do_STORE_def pop_def drop_top_def numeral_2_eq_2)

text \<open>
  C4.  \<^verbatim>\<open>STORE\<close> writes the second stack element (the cell under \<^verbatim>\<open>S\<close>) into the image at the
  index held in the cached top \<^verbatim>\<open>f\<close>, then pops both: the image cell at the old \<^verbatim>\<open>f\<close> holds the
  value popped first, \<^verbatim>\<open>f\<close> becomes the value popped next, and \<^verbatim>\<open>S\<close> is two lower.  So after
  \<^verbatim>\<open>value address !\<close> the image holds \<^verbatim>\<open>value\<close> at \<^verbatim>\<open>address\<close>.  (The index passes the bounds check
  and the stack holds the two elements.)
\<close>

theorem STORE_value_address:
  assumes "core_size st \<le> length (m st)" "ck st (f st)" "1 < S st" "S st < length (m st)"
  shows "\<exists>st'. execute n STORE pc st = Break st'
           \<and> m st' = (m st)[unat (f st) := m st ! S st]
           \<and> m st' ! unat (f st) = m st ! S st
           \<and> f st' = m st' ! (S st - 1)
           \<and> S st' = S st - 2"
  using assms by (simp add: execute_STORE ck_def)

theorem STORE_value_address_witness:
  "\<exists>st'. execute 0 STORE 72 ((enter tiny_core)\<lparr>S := 82, f := 20, m := (m tiny_core)[81 := 9, 82 := 7]\<rparr>)
            = Break st' \<and> m st' ! 20 = 7 \<and> f st' = 9 \<and> S st' = 80"
  using STORE_value_address [of "(enter tiny_core)\<lparr>S := 82, f := 20, m := (m tiny_core)[81 := 9, 82 := 7]\<rparr>" 0 72]
  by (auto simp: tiny_core_def enter_def forth.defs vm.defs ck_def)

text \<open>
  C1 fails on the code.  Not every index is checked: on the small core of 96 cells, \<^verbatim>\<open>DUP\<close>
  with the stack pointer at the last cell writes cell 96, \<^verbatim>\<open>IMMEDIATE\<close> with \<^verbatim>\<open>DIC = 0\<close> (as
  after \<^verbatim>\<open>0 0 !\<close>) reads and writes cell 65534, and \<^verbatim>\<open>JMPZ\<close> with a zero top and \<^verbatim>\<open>I = 96\<close>
  reads cell 96, none of them through \<^verbatim>\<open>check_bounds\<close> and none followed by the jump to the
  top of \<^verbatim>\<open>forth_run\<close>.
\<close>

theorem unchecked_image_access:
  "execute n DUP pc ((enter tiny_core)\<lparr>S := 95\<rparr>) = Fault Wild
   \<and> execute n IMMEDIATE pc ((enter tiny_core)\<lparr>m := (m tiny_core)[DIC := 0]\<rparr>) = Fault Wild
   \<and> execute n JMPZ pc ((enter tiny_core)\<lparr>I := 96\<rparr>) = Fault Wild"
  by (simp add: execute_def do_DUP_def do_IMMEDIATE_def do_JMPZ_def push_val_def tiny_core_def enter_def
      forth.defs vm.defs)

subsection \<open>The outer interpreter\<close>

lemma length_put_byte [simp]: "length (put_byte img k c) = length img"
  by (simp add: put_byte_def)

lemma length_put_bytes [simp]: "length (put_bytes img k cs) = length img"
  by (induction cs arbitrary: img k) simp_all

lemma get_word_sizes:
  "forth_get_word st = Some (r, st') \<Longrightarrow> length (m st') = length (m st) \<and> core_size st' = core_size st"
  by (auto simp: forth_get_word_def split: if_splits option.splits)

lemma find_loop_bound:
  "find_loop n img w len = Inr w' \<Longrightarrow> unat w + 1 < length img \<Longrightarrow> w' = 0 \<or> unat w' + 1 < length img"
proof (induction n arbitrary: w len)
  case 0
  then show ?case by simp
next
  case (Suc n)
  show ?case
  proof (cases "w' = w")
    case True
    then show ?thesis using Suc.prems(2) by simp
  next
    case False
    show ?thesis
    proof (cases "w' = 0")
      case True
      then show ?thesis by simp
    next
      case nz: False
      from Suc.prems(1) False nz
      have "find_loop n img (img ! unat w) (WORD_LENGTH (img ! (unat (img ! unat w) + 1))) = Inr w'
            \<and> unat (img ! unat w) + 1 < length img"
        by (auto simp: Let_def split: if_splits option.splits)
      then show ?thesis using Suc.IH by blast
    qed
  qed
qed

lemma find_word_bound:
  "find_word n st = Inr w \<Longrightarrow> w = 0 \<or> unat w + 1 < length (m st)"
  unfolding find_word_def Let_def
  by (auto split: if_splits dest!: find_loop_bound)

lemma unat_succ_le: "unat (w + 1 :: cell) \<le> unat w + 1"
  by (metis unat_word_ariths(1) mod_less_eq_dividend unsigned_1)

lemma do_READ_found:
  assumes "core_size st = length (m st)" "1 < core_size st"
    and "forth_get_word (st\<lparr>m := (m st)[RSTK := m st ! RSTK - 1]\<rparr>) = Some (r, st1)" "0 \<le> r"
    and "find_word n st1 = Inr w" "1 < w"
  shows "do_READ n st =
           Inner (if m st1 ! STATE = 0 \<and> b (m st1 ! unat (w + 1)) = opcode COMPILE
                  then w + 1 + 1 else w + 1) st1"
proof -
  have sz: "length (m st1) = length (m st)" "core_size st1 = core_size st"
    using get_word_sizes [OF assms(3)] by simp_all
  have "w \<noteq> 0" using assms(6) by auto
  then have "unat w + 1 < length (m st1)" using find_word_bound [OF assms(5)] by simp
  then have ck1: "ck st1 (w + 1)" using unat_succ_le [of w] sz assms(1) by (simp add: ck_def)
  have ck0: "ck st (of_nat RSTK)" using assms(2) by (simp add: ck_def)
  show ?thesis using ck0 ck1 assms(3,4,5,6)
    by (simp add: do_READ_def Let_def)
qed

subsection \<open>Runs of the small core\<close>

text \<open>
  The word of the small core is laid out as the compiler does it: from the image that holds
  only the registers and the self-dispatching program, \<^verbatim>\<open>compile(o, COMPILE, "@")\<close> and then
  \<^verbatim>\<open>m[m[DIC]++] = LOAD\<close> give the image of \<open>tiny_core\<close>.
\<close>

lemma tiny_core_compiled:
  "compile (tiny_core\<lparr>m := (replicate 96 0)[0 := 68, 1 := 88, 10 := 1, 11 := 2, 12 := 96,
                                   64 := 6, 65 := 2, 66 := 64, 67 := 65]\<rparr>)
     (opcode COMPILE) (Some ''@'')
   = Some (0, tiny_core\<lparr>m := (m tiny_core)[DIC := 71, 71 := 0]\<rparr>)
   \<and> append_raw ((m tiny_core)[DIC := 71, 71 := 0]) (opcode LOAD) = Some (m tiny_core)"
  apply (simp add: compile_def append_raw_def Let_def tiny_core_def put_byte_def NUL_def opcode_def
      instructions_def)
  apply (rule conjI; rule nth_equalityI)
     apply (auto simp: nth_list_update)
  done

lemma tiny_head:
  "threaded (Suc n) None (enter (tiny_input t str)) = threaded n (Some 64) (at_word t str)"
  by (simp add: at_word_def tiny_input_def enter_def forth_set_string_input_def tiny_core_def
      forth.defs vm.defs ck_def Let_def)

lemma at_get_word:
  "forth_get_word ((at_word t ''@'')\<lparr>m := (m (at_word t ''@''))[RSTK := m (at_word t ''@'') ! RSTK - 1]\<rparr>)
     = Some (1, at_read t ''@'' 64)"
  "forth_get_word ((at_word t ''7'')\<lparr>m := (m (at_word t ''7''))[RSTK := m (at_word t ''7'') ! RSTK - 1]\<rparr>)
     = Some (1, at_read t ''7'' 55)"
  by (simp_all add: at_word_def at_read_def tiny_input_def enter_def forth_set_string_input_def
      tiny_core_def forth.defs vm.defs forth_get_word_def scan_word_def isspace_def put_byte_def NUL_def)

lemma at_image:
  "m (at_read t str c) = (replicate 96 0)[0 := 72, 10 := 69, 11 := 2, 12 := 96,
            64 := 6, 65 := 2, 66 := 64, 67 := 65, 68 := 64, 69 := 1, 70 := 257, 71 := 7,
            1 := 87, 32 := c]"
  by (simp add: at_read_def tiny_core_def list_update_swap)

lemma at_cells:
  "length (m (at_read t str c)) = 96" "m (at_read t str c) ! 10 = 69" "m (at_read t str c) ! 70 = 257"
  "m (at_read t str c) ! 8 = 0" "m (at_read t str c) ! 71 = 7" "m (at_read t str c) ! 69 = 1"
  "m (at_read t str c) ! 2 = 0"
  by (simp_all add: at_image)

lemma at_bytes:
  "get_byte (m (at_read t str c)) 136 = CHR ''@''" "get_byte (m (at_read t str c)) 137 = NUL"
  by (simp_all add: at_image get_byte_def NUL_def char_of_eq_iff)

lemma at_name:
  "get_cstr (m (at_read t str 64)) 64 = Some ''@''"
  "get_cstr (m (at_read t str 55)) 64 = Some ''7''"
  by (simp_all add: at_image get_cstr.simps get_byte_def NUL_def char_of_eq_iff)

lemma at_find:
  "find_word (Suc n) (at_read t str 64) = Inr 69"
  "find_word (Suc (Suc n)) (at_read t str 55) = Inr 0"
  unfolding find_word_def Let_def
  by (simp_all add: at_cells at_name at_bytes WORD_LENGTH_def WORD_HIDDEN_def)

lemma at_fields:
  "core_size (at_word t str) = 96" "length (m (at_word t str)) = 96"
  "core_size (at_read t str c) = 96" "S (at_read t str c) = 80" "f (at_read t str c) = t"
  "I (at_read t str c) = 67"
  by (simp_all add: at_word_def at_read_def tiny_input_def enter_def forth_set_string_input_def
      tiny_core_def forth.defs vm.defs)

lemma at_dispatch_READ_found:
  "dispatch (Suc n) 64 (at_word t ''@'') = Inner 71 (at_read t ''@'' 64)"
proof -
  have op: "decode (b (m (at_word t ''@'') ! 64)) = Some READ" "ck (at_word t ''@'') 64"
    by (simp_all add: at_word_def tiny_input_def enter_def forth_set_string_input_def
      tiny_core_def forth.defs vm.defs decode_def b_def instructions_def ck_def)
  have "do_READ (Suc n) (at_word t ''@'') = Inner 71 (at_read t ''@'' 64)"
    using do_READ_found [of "at_word t ''@''" 1 "at_read t ''@'' 64" "Suc n" 69, OF _ _ at_get_word(1) _ at_find(1)]
    by (simp add: at_fields at_cells b_def opcode_def instructions_def)
  then show ?thesis using op by (simp add: dispatch_def execute_def)
qed

lemma at_dispatch_LOAD:
  "dispatch n 71 (at_read t str c) =
     (if unat t < 96 then Break ((at_read t str c)\<lparr>f := m (at_read t str c) ! unat t\<rparr>)
      else Longjmp (at_read t str c))"
  by (simp add: dispatch_def execute_def do_LOAD_def ck_def at_fields at_cells decode_def b_def
      instructions_def)

lemma tiny_run_abort:
  "forth_run (Suc (Suc (Suc n))) (tiny_input 200 ''@'')
     = Returned (- 1) ((forth.truncate (at_read 200 ''@'' 64))\<lparr>invalid := True\<rparr>)"
proof -
  have "\<not> invalid (tiny_input 200 ''@'')"
    by (simp add: tiny_input_def forth_set_string_input_def tiny_core_def)
  then show ?thesis
    by (simp add: forth_run_def tiny_head at_dispatch_READ_found at_dispatch_LOAD
        del: threaded.simps(2))
qed

lemma do_READ_number:
  assumes "1 < core_size st"
    and "forth_get_word (st\<lparr>m := (m st)[RSTK := m st ! RSTK - 1]\<rparr>) = Some (r, st1)" "0 \<le> r"
    and "find_word n st1 = Inr w" "w \<le> 1"
    and "get_cstr (m st1) s_offset = Some word" "is_number word" "m st1 ! STATE = 0"
    and "push_val st1 (f st1) = Some st2" "get_cstr (m st2) s_offset = Some word"
  shows "do_READ n st = Break (st2\<lparr>f := of_int (strtol word)\<rparr>)"
proof -
  have "\<not> 1 < w" using assms(5) by (simp add: not_less)
  then show ?thesis using assms by (simp add: do_READ_def ck_def)
qed

lemma strtol_7: "is_number ''7''" "strtol ''7'' = 7"
   apply (simp add: is_number_def strspn_def NUL_def)
  apply (simp only: strtol_def Let_def)
  apply (simp add: isspace_def is_digit_def digit_val_def digits_value_def)
  done

lemma at_pushed_name: "get_cstr (m (at_pushed t)) 64 = Some ''7''"
  by (simp add: at_pushed_def at_image get_cstr.simps get_byte_def NUL_def char_of_eq_iff)

lemma at_dispatch_READ_number:
  "dispatch (Suc (Suc n)) 64 (at_word t ''7'') = Break ((at_pushed t)\<lparr>f := 7\<rparr>)"
proof -
  have op: "decode (b (m (at_word t ''7'') ! 64)) = Some READ" "ck (at_word t ''7'') 64"
    by (simp_all add: at_word_def tiny_input_def enter_def forth_set_string_input_def
      tiny_core_def forth.defs vm.defs decode_def b_def instructions_def ck_def)
  have psh: "push_val (at_read t ''7'' 55) (f (at_read t ''7'' 55)) = Some (at_pushed t)"
    by (simp add: push_val_def at_pushed_def at_fields at_cells)
  have "do_READ (Suc (Suc n)) (at_word t ''7'') = Break ((at_pushed t)\<lparr>f := of_int (strtol ''7'')\<rparr>)"
    using do_READ_number [of "at_word t ''7''" 1 "at_read t ''7'' 55" "Suc (Suc n)" 0 "''7''" "at_pushed t",
        OF _ at_get_word(2) _ at_find(2) _ _ strtol_7(1) _ psh]
    by (simp add: at_fields at_cells at_name at_pushed_name)
  then show ?thesis using op by (simp add: dispatch_def execute_def strtol_7)
qed

lemma at_rest:
  "threaded (Suc (Suc (Suc (Suc n)))) None ((at_pushed t)\<lparr>f := 7\<rparr>)
     = Ended ((at_pushed t)\<lparr>f := 7, I := 67, m := (m (at_pushed t))[88 := 68]\<rparr>)"
  by (simp add: at_pushed_def at_read_def at_word_def tiny_input_def enter_def
      forth_set_string_input_def tiny_core_def forth.defs vm.defs ck_def Let_def
      dispatch_def execute_def decode_def b_def instructions_def do_RUN_def rpush_def then_do_def
      do_READ_def forth_get_word_def scan_word_def list_update_swap)

lemma tiny_run_ok:
  "forth_run (Suc (Suc (Suc (Suc (Suc (Suc n)))))) (tiny_input t ''7'')
     = Returned 0 ((forth.truncate ((at_pushed t)\<lparr>f := 7, I := 67, m := (m (at_pushed t))[88 := 68]\<rparr>))
                     \<lparr>o_top := 7\<rparr>)"
proof -
  have "\<not> invalid (tiny_input t ''7'')"
    by (simp add: tiny_input_def forth_set_string_input_def tiny_core_def)
  then show ?thesis
    by (simp add: forth_run_def tiny_head at_dispatch_READ_number at_rest del: threaded.simps(2))
qed

lemma frame_enter: "frame (enter ob) = frame ob"
  by (simp add: frame_def enter_def forth.defs)

lemma frame_truncate: "frame (forth.truncate st) = frame st"
  by (simp add: frame_def forth.defs)

lemma run_frame:
  assumes "forth_run n ob = Returned r ob'" "\<not> invalid ob"
  shows "o_S ob' = o_S ob \<and> o_I ob' = o_I ob \<and> core_size ob' = core_size ob
         \<and> stack_size ob' = stack_size ob \<and> (invalid ob' \<longleftrightarrow> r \<noteq> 0)"
proof (cases "threaded n None (enter ob)")
  case (Ended st)
  then have "frame st = frame ob" using threaded_frame [of n None "enter ob" st] by (simp add: frame_enter)
  then have "frame (forth.truncate st) = frame ob" by (simp add: frame_truncate)
  then show ?thesis using assms Ended by (auto simp: forth_run_def frame_def)
next
  case (Jumped st)
  then have "frame st = frame ob" using threaded_frame [of n None "enter ob" st] by (simp add: frame_enter)
  then have "frame (forth.truncate st) = frame ob" by (simp add: frame_truncate)
  then show ?thesis using assms Jumped by (auto simp: forth_run_def frame_def)
next
  case Asserted
  then show ?thesis using assms by (simp add: forth_run_def)
next
  case (Stuck e)
  then show ?thesis using assms by (simp add: forth_run_def)
qed

lemma run_invalid:
  "invalid ob \<Longrightarrow> forth_run k ob = Returned (- 1) ob"
  by (simp add: forth_run_def)

text \<open>
  C5.  Whenever \<^verbatim>\<open>forth_run\<close> returns: if it returns 0 the core's \<^verbatim>\<open>invalid\<close> flag is false; if
  it returns anything else the flag is true, and every later \<^verbatim>\<open>forth_run\<close> (and \<^verbatim>\<open>forth_eval\<close>) on
  that core returns \<open>-1\<close> at once, for any number of steps allowed, leaving the core as it
  was (for \<^verbatim>\<open>forth_eval\<close>: as \<^verbatim>\<open>forth_set_string_input\<close> left it).
\<close>

theorem run_invalid_sticky:
  assumes "forth_run n ob = Returned r ob'"
  shows "(r = 0 \<longrightarrow> \<not> invalid ob')
       \<and> (r \<noteq> 0 \<longrightarrow> invalid ob' \<and> (\<forall>k. forth_run k ob' = Returned (- 1) ob')
                     \<and> (\<forall>k str. forth_eval k ob' str = Returned (- 1) (forth_set_string_input ob' str)))"
proof (cases "invalid ob")
  case True
  then have "r = - 1" "ob' = ob" using assms run_invalid [of ob n] by simp_all
  then show ?thesis using True
    by (simp add: run_invalid forth_eval_def forth_set_string_input_def)
next
  case False
  from run_frame [OF assms False] have "invalid ob' \<longleftrightarrow> r \<noteq> 0" by simp
  then show ?thesis
    by (simp add: run_invalid forth_eval_def forth_set_string_input_def)
qed

theorem run_invalid_sticky_witness:
  "(\<exists>ob'. forth_run (Suc (Suc (Suc 0))) (tiny_input 200 ''@'') = Returned (- 1) ob'
          \<and> invalid ob' \<and> forth_run 1000 ob' = Returned (- 1) ob')
   \<and> (\<exists>ob'. forth_run (Suc (Suc (Suc (Suc (Suc (Suc 0)))))) (tiny_input 0 ''7'') = Returned 0 ob'
          \<and> \<not> invalid ob')"
  using run_invalid_sticky [OF tiny_run_abort [of 0]] run_invalid_sticky [OF tiny_run_ok [of 0 0]]
  by (simp add: tiny_run_abort tiny_run_ok)

text \<open>
  C10.  Of the interpreter's registers \<^verbatim>\<open>forth_run\<close> writes back only the cached top: after a
  run that returns 0 the stored stack pointer \<^verbatim>\<open>o->S\<close> and instruction pointer \<^verbatim>\<open>o->I\<close> are what
  they were before, whatever the program pushed, popped or called, so
  \<^verbatim>\<open>forth_stack_position\<close> reports the position of before the run and \<^verbatim>\<open>forth_pop\<close> pops from
  that position.
\<close>

theorem run_keeps_stack_pointer:
  assumes "forth_run n ob = Returned 0 ob'"
  shows "o_S ob' = o_S ob \<and> o_I ob' = o_I ob
       \<and> forth_stack_position ob' = forth_stack_position ob
       \<and> forth_pop ob' = (if 0 < o_S ob \<and> o_S ob < length (m ob')
                          then Some (o_top ob', ob'\<lparr>o_top := m ob' ! o_S ob, o_S := o_S ob - 1\<rparr>)
                          else None)"
proof -
  have "\<not> invalid ob" using assms by (auto simp: forth_run_def)
  from run_frame [OF assms this] show ?thesis
    by (simp add: forth_stack_position_def forth_pop_def)
qed

theorem run_keeps_stack_pointer_witness:
  "\<exists>ob'. forth_run (Suc (Suc (Suc (Suc (Suc (Suc 0)))))) (tiny_input 0 ''7'') = Returned 0 ob'
         \<and> o_top ob' = 7 \<and> o_S ob' = 80 \<and> forth_stack_position ob' = 80 \<and> o_I ob' = 66"
proof -
  let ?ob = "(forth.truncate ((at_pushed 0)\<lparr>f := 7, I := 67, m := (m (at_pushed 0))[88 := 68]\<rparr>))
               \<lparr>o_top := 7\<rparr>"
  have run: "forth_run (Suc (Suc (Suc (Suc (Suc (Suc 0)))))) (tiny_input 0 ''7'') = Returned 0 ?ob"
    by (rule tiny_run_ok)
  have before: "o_S (tiny_input 0 ''7'') = 80" "o_I (tiny_input 0 ''7'') = 66"
    by (simp_all add: tiny_input_def forth_set_string_input_def tiny_core_def)
  have "o_top ?ob = 7" by simp
  with run_keeps_stack_pointer [OF run] before
  have "o_top ?ob = 7 \<and> o_S ?ob = 80 \<and> forth_stack_position ?ob = 80 \<and> o_I ?ob = 66"
    by (simp add: forth_stack_position_def)
  with run show ?thesis by blast
qed



subsection \<open>The tokenizer\<close>

text \<open>
  C6 fails on the code for the file variant.  On the same characters, two spaces and
  \<^verbatim>\<open>dup\<close> before more input, the string variant returns 5, the number of bytes consumed, and
  the file variant returns 1, the value of \<^verbatim>\<open>fscanf\<close>; both store \<^verbatim>\<open>dup\<close> and its NUL.
\<close>

theorem get_word_file_returns_item_count:
  "forth_get_word (tiny_core\<lparr>fin := ''  dup swap''\<rparr>)
     = Some (1, tiny_core\<lparr>fin := '' swap'', m := put_bytes (m tiny_core) s_offset (''dup'' @ [NUL])\<rparr>)
   \<and> forth_get_word (forth_set_string_input tiny_core ''  dup swap'')
     = Some (5, (forth_set_string_input tiny_core ''  dup swap'')
                  \<lparr>sidx := 5, m := put_bytes (m tiny_core) s_offset (''dup'' @ [NUL])\<rparr>)"
  by (simp add: forth_get_word_def scan_word_def isspace_def forth_set_string_input_def tiny_core_def)

subsection \<open>The dictionary pointer\<close>

lemma completes_simps [simp]:
  "completes_with P (Break st) = P st" "completes_with P (Inner pc st) = P st"
  "completes_with P (End st) = P st" "completes_with P (Longjmp st)" "completes_with P (Fault e)"
  by (simp_all add: completes_with_def)

lemma grows_refl [simp]: "grows st st"
  by (simp add: grows_def)

lemma grows_trans: "grows st st1 \<Longrightarrow> grows st1 st2 \<Longrightarrow> grows st st2"
  by (auto simp: grows_def)

lemma grows_same: "m st' = m st \<Longrightarrow> core_size st' = core_size st \<Longrightarrow> grows st st'"
  by (simp add: grows_def)

lemma completes_then_do:
  assumes "completes_with (grows st) r" "\<And>st1. grows st st1 \<Longrightarrow> completes_with (grows st1) (k st1)"
  shows "completes_with (grows st) (then_do r k)"
proof (cases r)
  case (Break st1)
  then have g: "grows st st1" using assms(1) by simp
  have "completes_with (grows st1) (k st1)" by (rule assms(2) [OF g])
  then have "completes_with (grows st) (k st1)"
    using g by (cases "k st1") (auto intro: grows_trans)
  then show ?thesis by (simp add: then_do_def Break)
qed (use assms(1) in \<open>simp_all add: then_do_def\<close>)

lemma put_byte_other: "j \<noteq> k div 2 \<Longrightarrow> put_byte img k c ! j = img ! j"
  by (simp add: put_byte_def)

lemma put_bytes_below: "j < k div 2 \<Longrightarrow> put_bytes img k cs ! j = img ! j"
proof (induction cs arbitrary: img k)
  case Nil
  then show ?case by simp
next
  case (Cons c cs)
  have "j < Suc k div 2" using Cons.prems by linarith
  then have "put_bytes (put_byte img k c) (Suc k) cs ! j = put_byte img k c ! j"
    by (rule Cons.IH)
  then show ?case using Cons.prems by (simp add: put_byte_other)
qed

lemma get_word_grows: "forth_get_word st = Some (r, st') \<Longrightarrow> grows st st'"
  by (auto simp: forth_get_word_def grows_def put_bytes_below split: if_splits option.splits)

lemma get_char_same: "forth_get_char st = Some (c, st') \<Longrightarrow> m st' = m st \<and> core_size st' = core_size st"
  by (auto simp: forth_get_char_def split: if_splits list.splits)

lemma comment_same: "comment st = Some (c, st') \<Longrightarrow> m st' = m st \<and> core_size st' = core_size st"
proof (induction st rule: comment.induct)
  case (1 st)
  show ?case
  proof (cases "forth_get_char st")
    case None
    with "1.prems" show ?thesis by (simp add: comment.simps [of st])
  next
    case (Some p)
    obtain d st1 where p: "p = (d, st1)" by (cases p)
    have same: "m st1 = m st \<and> core_size st1 = core_size st" using Some p get_char_same by blast
    show ?thesis
    proof (cases "d > 0 \<and> d \<noteq> of_char CHR 0x0A")
      case True
      then have "comment st = comment st1" using Some p by (simp add: comment.simps [of st])
      then show ?thesis using "1.IH" [OF Some p [symmetric] True] "1.prems" same by simp
    next
      case False
      then show ?thesis using Some p "1.prems" same by (auto simp: comment.simps [of st])
    qed
  qed
qed

lemma cell_succ: "unat (d :: cell) < 65535 \<Longrightarrow> d \<le> d + 1"
  by (simp add: word_le_nat_alt unat_word_ariths)

lemma append_raw_grows:
  assumes "append_raw img v = Some img'" "length img \<le> 65535"
  shows "img ! DIC \<le> img' ! DIC \<and> length img' = length img"
proof (cases "unat (img ! DIC) = 0")
  case True
  then have "img ! DIC = 0" by (simp add: unat_eq_0)
  then show ?thesis using assms by (auto simp: append_raw_def Let_def split: if_splits)
next
  case False
  have lt: "unat (img ! DIC) < length img" using assms(1) by (auto simp: append_raw_def Let_def split: if_splits)
  then have pos: "0 < length img" by (cases img) simp_all
  have "img ! DIC \<le> img ! DIC + 1" using lt assms(2) by (intro cell_succ) simp
  then show ?thesis using assms(1) False lt pos by (auto simp: append_raw_def Let_def split: if_splits)
qed


lemma dic_append_grows:
  assumes "core_size st = length (m st)" "length (m st) \<le> 65535"
  shows "completes_with (grows st) (dic_append st v)"
proof (cases "ck st (m st ! DIC)")
  case False
  then show ?thesis by (simp add: dic_append_def Let_def ck_def)
next
  case True
  then have lt: "unat (m st ! DIC) < length (m st)" using assms(1) by (simp add: ck_def)
  then have pos: "0 < length (m st)" by (cases "m st") simp_all
  show ?thesis
  proof (cases "unat (m st ! DIC) = 0")
    case z: True
    then have "m st ! DIC = 0" by (simp add: unat_eq_0)
    then show ?thesis using True by (simp add: dic_append_def Let_def ck_def grows_def)
  next
    case nz: False
    have "m st ! DIC \<le> m st ! DIC + 1" using lt assms(2) by (intro cell_succ) simp
    then show ?thesis using True nz pos
      by (simp add: dic_append_def Let_def ck_def grows_def)
  qed
qed

lemma push_val_grows: "push_val st v = Some st' \<Longrightarrow> grows st st'"
  by (auto simp: push_val_def grows_def split: if_splits)

lemma pop_same: "pop st = Some (v, st') \<Longrightarrow> m st' = m st \<and> core_size st' = core_size st"
  by (auto simp: pop_def split: if_splits)

lemma drop_top_grows: "completes_with (grows st) (drop_top st)"
  by (auto simp: drop_top_def grows_def dest!: pop_same split: option.splits)

lemma binop_grows: "completes_with (grows st) (binop g st)"
  by (auto simp: binop_def grows_def dest!: pop_same split: option.splits)

lemma intop_grows: "completes_with (grows st) (intop g st)"
  by (auto simp: intop_def grows_def dest!: pop_same split: option.splits)

lemma rpush_grows:
  assumes "m st ! RSTK \<noteq> - 1"
  shows "completes_with (grows st) (rpush st v)"
proof -
  have "m st ! RSTK + 1 \<noteq> 0" using assms by (metis add.commute add_eq_0_iff)
  then have "unat (m st ! RSTK + 1) \<noteq> 0" by (simp add: unat_eq_0)
  then show ?thesis by (simp add: rpush_def Let_def grows_def)
qed

lemma rpop_grows:
  "rpop st = Inr (v, st') \<Longrightarrow> grows st st'"
  by (auto simp: rpop_def Let_def grows_def split: if_splits)


lemma get_word_cell0:
  "forth_get_word st = Some (r, st') \<Longrightarrow> m st' ! DIC = m st ! DIC"
  by (auto simp: forth_get_word_def put_bytes_below split: if_splits option.splits)

lemma cell_add_nat:
  assumes "unat (d :: cell) + k \<le> 65535"
  shows "d \<le> d + of_nat k"
proof -
  have "unat (of_nat k :: cell) = k" using assms by (simp add: unat_of_nat)
  then have "unat (d + of_nat k) = unat d + k" using assms by (simp add: unat_word_ariths)
  then show ?thesis by (simp add: word_le_nat_alt)
qed

lemma compile_grows:
  assumes "compile st code None = Some (r, st')" "length (m st) \<le> 65535"
  shows "grows st st'"
proof -
  from assms(1) obtain r1 st1 where gw: "forth_get_word st = Some (r1, st1)"
    by (auto simp: compile_def Let_def split: option.splits)
  have g1: "grows st st1" using gw by (rule get_word_grows)
  have len1: "length (m st1) = length (m st)" using g1 by (simp add: grows_def)
  have h1: "m st1 ! DIC = m st ! DIC" using gw by (rule get_word_cell0)
  show ?thesis
  proof (cases "r1 < 0")
    case True
    then have "st' = st1" using assms(1) gw by (simp add: compile_def Let_def)
    then show ?thesis using g1 by simp
  next
    case False
    from assms(1) gw False obtain nm where nm: "get_cstr (m st1) s_offset = Some nm"
      by (auto simp: compile_def Let_def split: option.splits)
    define dst where "dst = cell_bytes * unat (m st ! DIC)"
    define k where "k = length nm + 1"
    define l where "l = ((k + (cell_bytes - 1)) - (k + (cell_bytes - 1)) mod cell_bytes) div cell_bytes"
    define m1 where "m1 = put_bytes (m st1) dst (nm @ [NUL])"
    define m2 where "m2 = m1[DIC := m1 ! DIC + of_nat l]"
    from assms(1) gw False nm
    have fit: "\<not> cell_bytes * length (m st1) < dst + k"
      and ex: "\<exists>m3 m5. append_raw m2 (m2 ! PWD) = Some m3
                 \<and> append_raw (m3[PWD := m3 ! DIC - 1]) (push_bit WORD_LENGTH_OFFSET (of_nat l) OR code) = Some m5
                 \<and> st' = st1\<lparr>m := m5\<rparr>"
      unfolding compile_def dst_def k_def l_def m1_def m2_def
      by (auto simp: Let_def split: option.splits if_splits)
    from ex obtain m3 m5 where a1: "append_raw m2 (m2 ! PWD) = Some m3"
      and a2: "append_raw (m3[PWD := m3 ! DIC - 1]) (push_bit WORD_LENGTH_OFFSET (of_nat l) OR code) = Some m5"
      and st': "st' = st1\<lparr>m := m5\<rparr>" by blast
    have len2: "length m2 = length (m st)" by (simp add: m2_def m1_def len1)
    have s1: "m2 ! DIC \<le> m3 ! DIC \<and> length m3 = length m2"
      using append_raw_grows [OF a1] len2 assms(2) by simp
    have s2: "(m3[PWD := m3 ! DIC - 1]) ! DIC \<le> m5 ! DIC \<and> length m5 = length (m3[PWD := m3 ! DIC - 1])"
      using append_raw_grows [OF a2] s1 len2 assms(2) by simp
    have s12: "m2 ! DIC \<le> m5 ! DIC" "length m5 = length (m st)"
      using s1 s2 len2 by auto
    have sizes: "length (m st') = length (m st)" "core_size st' = core_size st"
      using st' s12 g1 by (simp_all add: grows_def)
    show ?thesis
    proof (cases "m st ! DIC = 0")
      case True
      then show ?thesis using sizes by (simp add: grows_def)
    next
      case nz: False
      then have "0 < unat (m st ! DIC)" by (simp add: unat_gt_0)
      then have "DIC < dst div 2" by (simp add: dst_def)
      then have "m1 ! DIC = m st1 ! DIC" unfolding m1_def by (rule put_bytes_below)
      then have m1h: "m1 ! DIC = m st ! DIC" using h1 by simp
      have "l \<le> (k + 1) div 2" by (simp add: l_def)
      moreover have "2 * unat (m st ! DIC) + k \<le> 2 * length (m st)" using fit len1 by (simp add: dst_def)
      ultimately have "unat (m st ! DIC) + l \<le> length (m st)" by linarith
      then have "m st ! DIC \<le> m st ! DIC + of_nat l" using assms(2) by (intro cell_add_nat) simp
      moreover have "0 < length m1" using \<open>unat (m st ! DIC) + l \<le> length (m st)\<close> \<open>0 < unat (m st ! DIC)\<close>
        by (cases "m st") (simp_all add: m1_def len1)
      ultimately have "m st ! DIC \<le> m2 ! DIC" using m1h by (simp add: m2_def)
      then have "m st ! DIC \<le> m5 ! DIC" using s12(1) by simp
      then show ?thesis using sizes st' by (simp add: grows_def)
    qed
  qed
qed


lemma grows_updates [simp]:
  "grows st (vst\<lparr>f := c\<rparr>) = grows st vst"
  "grows st (vst\<lparr>I := c\<rparr>) = grows st vst"
  "grows st (vst\<lparr>S := k\<rparr>) = grows st vst"
  "grows st (st'\<lparr>fout := a\<rparr>) = grows st st'"
  "grows st (st'\<lparr>files := fs\<rparr>) = grows st st'"
  "grows (vst\<lparr>fout := a\<rparr>) st' = grows vst st'"
  "grows (vst\<lparr>I := c\<rparr>) st' = grows vst st'"
  by (simp_all add: grows_def)

lemma grows_PUSH: "completes_with (grows st) (do_PUSH st)"
  by (auto simp: do_PUSH_def Let_def dest!: push_val_grows split: option.splits)

lemma grows_RUN: "m st ! RSTK \<noteq> - 1 \<Longrightarrow> completes_with (grows st) (do_RUN pc st)"
  unfolding do_RUN_def by (rule completes_then_do [OF rpush_grows]) simp_all

lemma grows_TOR: "m st ! RSTK \<noteq> - 1 \<Longrightarrow> completes_with (grows st) (do_TOR st)"
  unfolding do_TOR_def by (rule completes_then_do [OF rpush_grows]) (simp_all add: drop_top_grows)

lemma grows_COMMA:
  assumes "core_size st = length (m st)" "length (m st) \<le> 65535"
  shows "completes_with (grows st) (do_COMMA st)"
  unfolding do_COMMA_def
  by (rule completes_then_do [OF dic_append_grows [OF assms]]) (simp add: drop_top_grows)

lemma grows_DEFINE:
  assumes "core_size st = length (m st)" "length (m st) \<le> 65535"
  shows "completes_with (grows st) (do_DEFINE st)"
proof (cases "compile (st\<lparr>m := (m st)[STATE := 1]\<rparr>) (opcode COMPILE) None")
  case None
  then show ?thesis by (simp add: do_DEFINE_def)
next
  case (Some p)
  obtain r st1 where p: "p = (r, st1)" by (cases p)
  let ?st0 = "st\<lparr>m := (m st)[STATE := 1]\<rparr>"
  have g0: "grows st ?st0" by (simp add: grows_def)
  have "grows ?st0 st1" using compile_grows [OF Some [unfolded p]] assms(2) by simp
  then have g1: "grows st st1" using g0 grows_trans by blast
  then have "core_size st1 = length (m st1)" "length (m st1) \<le> 65535"
    using assms by (simp_all add: grows_def)
  then have "completes_with (grows st1) (dic_append st1 (opcode RUN))" by (rule dic_append_grows)
  then have "completes_with (grows st) (dic_append st1 (opcode RUN))"
    using g1 by (cases "dic_append st1 (opcode RUN)") (auto intro: grows_trans)
  then show ?thesis using g1 Some [unfolded p] by (simp add: do_DEFINE_def)
qed

lemma grows_COMMENT: "completes_with (grows st) (do_COMMENT st)"
  by (auto simp: do_COMMENT_def grows_def dest!: comment_same split: option.splits)

lemma grows_READ:
  assumes "core_size st = length (m st)" "length (m st) \<le> 65535"
  shows "completes_with (grows st) (do_READ n st)"
proof (cases "ck st (of_nat RSTK)")
  case False
  then show ?thesis by (simp add: do_READ_def)
next
  case True
  let ?st0 = "st\<lparr>m := (m st)[RSTK := m st ! RSTK - 1]\<rparr>"
  have g0: "grows st ?st0" by (simp add: grows_def)
  show ?thesis
  proof (cases "forth_get_word ?st0")
    case None
    then show ?thesis using True by (simp add: do_READ_def)
  next
    case (Some p)
    obtain r st1 where p: "p = (r, st1)" by (cases p)
    have "grows ?st0 st1" using get_word_grows [OF Some [unfolded p]] .
    then have g1: "grows st st1" using g0 grows_trans by blast
    have app: "\<And>img v. append_raw (m st1) 2 = Some img
                 \<Longrightarrow> completes_with (grows st) (dic_append (st1\<lparr>m := img\<rparr>) v)"
    proof -
      fix img v
      assume a: "append_raw (m st1) 2 = Some img"
      have "length (m st1) \<le> 65535" using g1 assms by (simp add: grows_def)
      from append_raw_grows [OF a this] have g2: "grows st1 (st1\<lparr>m := img\<rparr>)" by (simp add: grows_def)
      then have g3: "grows st (st1\<lparr>m := img\<rparr>)" using g1 grows_trans by blast
      then have "core_size (st1\<lparr>m := img\<rparr>) = length (m (st1\<lparr>m := img\<rparr>))"
        "length (m (st1\<lparr>m := img\<rparr>)) \<le> 65535"
        using assms by (simp_all add: grows_def)
      then have "completes_with (grows (st1\<lparr>m := img\<rparr>)) (dic_append (st1\<lparr>m := img\<rparr>) v)"
        by (rule dic_append_grows)
      then show "completes_with (grows st) (dic_append (st1\<lparr>m := img\<rparr>) v)"
        using g3 by (cases "dic_append (st1\<lparr>m := img\<rparr>) v") (auto intro: grows_trans)
    qed
    have psh: "\<And>st2 v. push_val st1 v = Some st2 \<Longrightarrow> grows st st2"
      using push_val_grows g1 grows_trans by blast
    show ?thesis using True g1 app psh Some [unfolded p]
      by (simp add: do_READ_def Let_def split: sum.splits option.splits)
  qed
qed

lemma grows_STORE: "f st \<noteq> 0 \<Longrightarrow> completes_with (grows st) (do_STORE st)"
proof (cases "pop st")
  case None
  then show ?thesis by (simp add: do_STORE_def)
next
  case (Some p)
  assume nz: "f st \<noteq> 0"
  obtain v st1 where p: "p = (v, st1)" by (cases p)
  have same: "m st1 = m st \<and> core_size st1 = core_size st" using pop_same [OF Some [unfolded p]] .
  let ?st2 = "st1\<lparr>m := (m st1)[unat (f st) := v]\<rparr>"
  have "unat (f st) \<noteq> 0" using nz by (simp add: unat_eq_0)
  then have g: "grows st ?st2" using same by (simp add: grows_def)
  have "completes_with (grows ?st2) (drop_top ?st2)" by (rule drop_top_grows)
  then have "completes_with (grows st) (drop_top ?st2)"
    using g by (cases "drop_top ?st2") (auto intro: grows_trans)
  then show ?thesis by (simp add: do_STORE_def Some p)
qed

lemma grows_EXIT: "completes_with (grows st) (do_EXIT st)"
  by (auto simp: do_EXIT_def dest: rpop_grows split: sum.splits)

lemma grows_KEY: "completes_with (grows st) (do_KEY st)"
  by (auto simp: do_KEY_def grows_def dest!: push_val_grows get_char_same split: option.splits)

lemma grows_FROMR: "completes_with (grows st) (do_FROMR st)"
  by (auto simp: do_FROMR_def dest!: push_val_grows rpop_grows intro: grows_trans
      split: option.splits sum.splits)

lemma grows_out: "completes_with (grows st) (drop_top (st\<lparr>fout := a\<rparr>))"
  using drop_top_grows [of "st\<lparr>fout := a\<rparr>"]
  by (cases "drop_top (st\<lparr>fout := a\<rparr>)") simp_all

lemma grows_JMPZ: "completes_with (grows st) (do_JMPZ st)"
  using drop_top_grows [of "st\<lparr>I := I st + m st ! unat (I st)\<rparr>"] drop_top_grows [of "st\<lparr>I := I st + 1\<rparr>"]
  by (cases "drop_top (st\<lparr>I := I st + m st ! unat (I st)\<rparr>)"; cases "drop_top (st\<lparr>I := I st + 1\<rparr>)")
     (simp_all add: do_JMPZ_def)

lemma grows_SWAP: "completes_with (grows st) (do_SWAP st)"
  by (auto simp: do_SWAP_def grows_def dest!: push_val_grows pop_same split: option.splits)

lemma grows_DUP: "completes_with (grows st) (do_DUP st)"
  by (auto simp: do_DUP_def dest!: push_val_grows split: option.splits)

lemma grows_OVER: "completes_with (grows st) (do_OVER st)"
  by (auto simp: do_OVER_def dest!: push_val_grows split: option.splits)


lemma blockio_grows:
  assumes "blockio st p i rw = Some (r, st')" "rw = CHR ''r'' \<longrightarrow> 2 \<le> unat p"
  shows "grows st st'"
proof -
  have "rw = CHR ''r'' \<Longrightarrow> DIC < unat p div 2" using assms(2) by simp
  then show ?thesis using assms(1)
    by (auto simp: blockio_def Let_def grows_def put_bytes_below split: if_splits option.splits)
qed

lemma grows_BLOCK:
  assumes "rw = CHR ''r'' \<longrightarrow> 2 \<le> unat (m st ! S st)"
  shows "completes_with (grows st) (do_BLOCK rw st)"
proof (cases "pop st")
  case None
  then show ?thesis by (simp add: do_BLOCK_def)
next
  case (Some p)
  obtain v st1 where p: "p = (v, st1)" by (cases p)
  have v: "v = m st ! S st" and same: "m st1 = m st" "core_size st1 = core_size st"
    using Some p by (auto simp: pop_def split: if_splits)
  have g1: "grows st st1" using same by (simp add: grows_def)
  show ?thesis
  proof (cases "blockio st1 v (f st) rw")
    case None
    then show ?thesis by (simp add: do_BLOCK_def Some p)
  next
    case (Some q)
    obtain r st2 where q: "q = (r, st2)" by (cases q)
    have "grows st1 st2" using blockio_grows [OF Some [unfolded q]] assms v by simp
    then have "grows st st2" using g1 grows_trans by blast
    then show ?thesis using Some q \<open>pop st = Some p\<close> p by (simp add: do_BLOCK_def)
  qed
qed

lemma grows_FIND: "completes_with (grows st) (do_FIND n st)"
  by (auto simp: do_FIND_def dest!: push_val_grows get_word_grows intro: grows_trans
      split: option.splits sum.splits)

lemma grows_PRINT: "completes_with (grows st) (do_PRINT st)"
  by (simp add: do_PRINT_def grows_out split: option.splits)

lemma grows_PSTK: "completes_with (grows st) (do_PSTK st)"
  by (auto simp: do_PSTK_def print_stack_def Let_def grows_def split: option.splits if_splits)

lemma grows_execute:
  assumes "core_size st = length (m st)" "length (m st) \<le> 65535"
    and "i \<noteq> IMMEDIATE"
    and "i = STORE \<longrightarrow> f st \<noteq> 0"
    and "i = RUN \<or> i = TOR \<longrightarrow> m st ! RSTK \<noteq> - 1"
    and "i = BLOAD \<longrightarrow> 2 \<le> unat (m st ! S st)"
  shows "completes_with (grows st) (execute n i pc st)"
  using assms(3-6)
  by (cases i)
    (simp_all add: execute_def do_COMPILE_def dic_append_grows [OF assms(1,2)] grows_PUSH grows_RUN
      grows_DEFINE [OF assms(1,2)] grows_COMMENT grows_READ [OF assms(1,2)] do_LOAD_def grows_STORE
      binop_grows intop_grows grows_EXIT do_EMIT_def grows_out grows_KEY grows_FROMR grows_TOR do_JMP_def
      grows_JMPZ do_PNUM_def grows_COMMA [OF assms(1,2)] grows_SWAP grows_DUP drop_top_grows
      grows_OVER do_TAIL_def grows_BLOCK grows_FIND grows_PRINT grows_PSTK grows_def)

lemma IMMEDIATE_rewinds:
  assumes "length (m st) \<le> 65535" "2 < unat (m st ! DIC)"
  shows "completes_with (\<lambda>st'. m st' ! DIC = m st ! DIC - 1 \<and> m st' ! DIC < m st ! DIC)
           (do_IMMEDIATE st)"
proof (cases "length (m st) \<le> unat (m st ! DIC - 2)")
  case True
  then show ?thesis using assms
    by (cases "m st") (simp_all add: do_IMMEDIATE_def Let_def)
next
  case False
  have d2: "unat (m st ! DIC - 2) = unat (m st ! DIC) - 2"
    using assms(2) by (simp add: unat_sub word_le_nat_alt)
  have d1: "unat (m st ! DIC - 1) = unat (m st ! DIC) - 1"
    using assms(2) by (simp add: unat_sub word_le_nat_alt)
  have lt: "m st ! DIC - 1 < m st ! DIC" using d1 assms(2) by (simp add: word_less_nat_alt)
  have pos: "0 < length (m st)" "unat (m st ! DIC - 2) \<noteq> 0" using False d2 assms(2) by auto
  have "m st ! DIC - 2 + 1 = m st ! DIC - 1" by simp
  then show ?thesis using False pos lt
    by (simp add: do_IMMEDIATE_def Let_def)
qed


text \<open>
  C3, as amended.  On a core of at most 65535 cells, every primitive other than \<^verbatim>\<open>IMMEDIATE\<close>
  that completes leaves \<^verbatim>\<open>DIC\<close> (image cell 0) greater than or equal to its value before,
  unless the primitive stores program data into cell 0 itself: a \<^verbatim>\<open>STORE\<close> to address 0, a
  \<^verbatim>\<open>RUN\<close> or \<^verbatim>\<open>TOR\<close> whose return-stack pointer wraps round to 0, or a \<^verbatim>\<open>BLOAD\<close> at byte offset
  0 or 1.  \<^verbatim>\<open>IMMEDIATE\<close> rewinds: when \<^verbatim>\<open>DIC\<close> is above 2 and the primitive completes, \<^verbatim>\<open>DIC\<close> is
  one less than before.
\<close>

theorem DIC_monotone_except:
  assumes "core_size st = length (m st)" "length (m st) \<le> 65535"
  shows "(i \<noteq> IMMEDIATE \<and> (i = STORE \<longrightarrow> f st \<noteq> 0)
            \<and> (i = RUN \<or> i = TOR \<longrightarrow> m st ! RSTK \<noteq> - 1)
            \<and> (i = BLOAD \<longrightarrow> 2 \<le> unat (m st ! S st))
          \<longrightarrow> completes_with (\<lambda>st'. m st ! DIC \<le> m st' ! DIC) (execute n i pc st))
       \<and> (2 < unat (m st ! DIC)
          \<longrightarrow> completes_with (\<lambda>st'. m st' ! DIC = m st ! DIC - 1 \<and> m st' ! DIC < m st ! DIC)
                (execute n IMMEDIATE pc st))"
proof (intro conjI impI)
  assume c: "i \<noteq> IMMEDIATE \<and> (i = STORE \<longrightarrow> f st \<noteq> 0)
            \<and> (i = RUN \<or> i = TOR \<longrightarrow> m st ! RSTK \<noteq> - 1)
            \<and> (i = BLOAD \<longrightarrow> 2 \<le> unat (m st ! S st))"
  then have "completes_with (grows st) (execute n i pc st)"
    using grows_execute [OF assms, of i n pc] by blast
  then show "completes_with (\<lambda>st'. m st ! DIC \<le> m st' ! DIC) (execute n i pc st)"
    by (cases "execute n i pc st") (simp_all add: grows_def)
next
  assume "2 < unat (m st ! DIC)"
  then show "completes_with (\<lambda>st'. m st' ! DIC = m st ! DIC - 1 \<and> m st' ! DIC < m st ! DIC)
                (execute n IMMEDIATE pc st)"
    using IMMEDIATE_rewinds [OF assms(2)] by (simp add: execute_def)
qed

lemma tiny_COMMA:
  "execute 0 COMMA 0 (enter tiny_core)
     = Break ((enter tiny_core)\<lparr>S := 79, f := 0, m := (m tiny_core)[DIC := 73, 72 := 0]\<rparr>)"
  by (simp add: execute_def do_COMMA_def dic_append_def then_do_def drop_top_def pop_def ck_def
      Let_def enter_def tiny_core_def forth.defs vm.defs)

lemma tiny_IMMEDIATE:
  "execute 0 IMMEDIATE 0 (enter tiny_core)
     = Break ((enter tiny_core)\<lparr>m := (m tiny_core)[DIC := 71, 70 := 258]\<rparr>)"
  by (simp add: execute_def do_IMMEDIATE_def Let_def enter_def tiny_core_def forth.defs vm.defs
      opcode_def instructions_def list_update_swap)

theorem DIC_monotone_except_witness:
  "execute 0 COMMA 0 (enter tiny_core)
     = Break ((enter tiny_core)\<lparr>S := 79, f := 0, m := (m tiny_core)[DIC := 73, 72 := 0]\<rparr>)
   \<and> m (enter tiny_core) ! DIC \<le> (m tiny_core)[DIC := 73, 72 := 0] ! DIC
   \<and> execute 0 IMMEDIATE 0 (enter tiny_core)
     = Break ((enter tiny_core)\<lparr>m := (m tiny_core)[DIC := 71, 70 := 258]\<rparr>)
   \<and> (m tiny_core)[DIC := 71, 70 := 258] ! DIC = m (enter tiny_core) ! DIC - 1"
proof -
  have wf: "core_size (enter tiny_core) = length (m (enter tiny_core))"
    "length (m (enter tiny_core)) \<le> 65535" "2 < unat (m (enter tiny_core) ! DIC)"
    by (simp_all add: enter_def tiny_core_def forth.defs)
  from DIC_monotone_except [OF wf(1,2), of COMMA 0 0] DIC_monotone_except [OF wf(1,2), of IMMEDIATE 0 0] wf(3)
  show ?thesis by (simp add: tiny_COMMA tiny_IMMEDIATE)
qed

lemma tiny_STORE_zero:
  "execute 0 STORE 0 ((enter tiny_core)\<lparr>S := 82, f := 0, m := (m tiny_core)[81 := 9, 82 := 7]\<rparr>)
     = Break ((enter tiny_core)\<lparr>S := 80, f := 9, m := (m tiny_core)[81 := 9, 82 := 7, DIC := 7]\<rparr>)"
  by (simp add: execute_def do_STORE_def pop_def drop_top_def ck_def enter_def tiny_core_def
      forth.defs vm.defs)

text \<open>
  C3 as stated fails: on the small core \<^verbatim>\<open>IMMEDIATE\<close> takes \<^verbatim>\<open>DIC\<close> from 72 to 71, and a
  \<^verbatim>\<open>STORE\<close> of 7 to address 0 takes it from 72 to 7.
\<close>

theorem DIC_decreases_counterexample:
  "execute 0 IMMEDIATE 0 (enter tiny_core)
     = Break ((enter tiny_core)\<lparr>m := (m tiny_core)[DIC := 71, 70 := 258]\<rparr>)
   \<and> m (enter tiny_core) ! DIC = 72
   \<and> m ((enter tiny_core)\<lparr>m := (m tiny_core)[DIC := 71, 70 := 258]\<rparr>) ! DIC = 71
   \<and> \<not> m (enter tiny_core) ! DIC
         \<le> m ((enter tiny_core)\<lparr>m := (m tiny_core)[DIC := 71, 70 := 258]\<rparr>) ! DIC
   \<and> execute 0 STORE 0 ((enter tiny_core)\<lparr>S := 82, f := 0, m := (m tiny_core)[81 := 9, 82 := 7]\<rparr>)
     = Break ((enter tiny_core)\<lparr>S := 80, f := 9, m := (m tiny_core)[81 := 9, 82 := 7, DIC := 7]\<rparr>)"
  by (simp add: tiny_IMMEDIATE tiny_STORE_zero)
     (simp add: enter_def tiny_core_def forth.defs vm.defs)

subsection \<open>Bytes and C strings in the image\<close>

lemmas byte_bits = char_of_def bit_unsigned_iff bit_or_iff bit_and_iff bit_horner_sum_bit_iff
  possible_bit_def bit_drop_bit_eq bit_push_bit_iff

lemma get_put_same:
  assumes "k div 2 < length img"
  shows "get_byte (put_byte img k c) k = c"
proof (cases "even k")
  case True
  then have "k mod 2 = 0" by presburger
  then show ?thesis using True assms
    by (cases c) (simp add: get_byte_def put_byte_def byte_bits)
next
  case False
  then have "k mod 2 = 1" by presburger
  then show ?thesis using False assms
    by (cases c) (simp add: get_byte_def put_byte_def byte_bits)
qed

lemma get_put_other:
  assumes "j \<noteq> k"
  shows "get_byte (put_byte img k c) j = get_byte img j"
proof (cases "j div 2 = k div 2")
  case False
  then show ?thesis by (simp add: get_byte_def put_byte_def)
next
  case True
  then have par: "even j \<longleftrightarrow> odd k" using assms by presburger
  show ?thesis
  proof (cases "k div 2 < length img")
    case False
    then have "put_byte img k c = img" by (simp add: put_byte_def not_less list_update_beyond)
    then show ?thesis by simp
  next
    case lt: True
    show ?thesis
    proof (cases "even k")
      case True
      then have "odd j" using par by simp
      then have "j mod 2 = 1" by presburger
      then show ?thesis using True lt \<open>j div 2 = k div 2\<close>
        by (cases c) (simp add: get_byte_def put_byte_def byte_bits)
    next
      case False
      then have "even j" using par by simp
      then have "j mod 2 = 0" by presburger
      then show ?thesis using False lt \<open>j div 2 = k div 2\<close>
        by (cases c) (simp add: get_byte_def put_byte_def byte_bits)
    qed
  qed
qed

lemma get_put_bytes_below: "j < k \<Longrightarrow> get_byte (put_bytes img k cs) j = get_byte img j"
proof (induction cs arbitrary: img k)
  case Nil
  then show ?case by simp
next
  case (Cons c cs)
  have "get_byte (put_bytes (put_byte img k c) (Suc k) cs) j = get_byte (put_byte img k c) j"
    using Cons.prems by (intro Cons.IH) simp
  then show ?case using Cons.prems by (simp add: get_put_other)
qed

lemma get_cstr_put_bytes:
  assumes "NUL \<notin> set w" "k + length w + 1 \<le> cell_bytes * length img"
  shows "get_cstr (put_bytes img k (w @ [NUL])) k = Some w"
  using assms
proof (induction w arbitrary: img k)
  case Nil
  then have "k div 2 < length img" by simp
  then show ?case using Nil by (simp add: get_cstr.simps [of _ k] get_put_same)
next
  case (Cons c cs)
  let ?img = "put_byte img k c"
  have lt: "k div 2 < length img" using Cons.prems(2) by simp
  have "get_byte (put_bytes ?img (Suc k) (cs @ [NUL])) k = get_byte ?img k"
    by (rule get_put_bytes_below) simp
  then have byte: "get_byte (put_bytes ?img (Suc k) (cs @ [NUL])) k = c"
    using lt by (simp add: get_put_same)
  have rest: "get_cstr (put_bytes ?img (Suc k) (cs @ [NUL])) (Suc k) = Some cs"
    using Cons.prems by (intro Cons.IH) simp_all
  have "c \<noteq> NUL" using Cons.prems(1) by auto
  then show ?case using byte rest Cons.prems(2)
    by (simp add: get_cstr.simps [of _ k])
qed

lemma get_cstr_Some:
  "get_cstr img k = Some w \<longleftrightarrow>
     k < cell_bytes * length img
     \<and> (if get_byte img k = NUL then w = []
         else \<exists>cs. w = get_byte img k # cs \<and> get_cstr img (Suc k) = Some cs)"
  by (subst get_cstr.simps) (auto simp: not_le)

lemma get_cstr_update_above:
  assumes "get_cstr img k = Some w" "k + length w < cell_bytes * j"
  shows "get_cstr (img[j := v]) k = Some w"
  using assms
proof (induction w arbitrary: k)
  case Nil
  then have "k div 2 \<noteq> j" by simp
  then have same: "get_byte (img[j := v]) k = get_byte img k" by (simp add: get_byte_def)
  from Nil.prems(1) have "k < cell_bytes * length img" "get_byte img k = NUL"
    by (auto simp: get_cstr_Some [of img k] split: if_splits)
  then show ?case using same by (simp add: get_cstr_Some [of _ k])
next
  case (Cons c cs)
  then have "k div 2 \<noteq> j" by simp
  then have same: "get_byte (img[j := v]) k = get_byte img k" by (simp add: get_byte_def)
  from Cons.prems(1) have parts: "k < cell_bytes * length img" "get_byte img k \<noteq> NUL"
    "get_byte img k = c" "get_cstr img (Suc k) = Some cs"
    by (auto simp: get_cstr_Some [of img k] split: if_splits)
  have "get_cstr (img[j := v]) (Suc k) = Some cs"
    using parts(4) Cons.prems(2) by (intro Cons.IH) simp_all
  then show ?case using parts same by (simp add: get_cstr_Some [of _ k])
qed

subsection \<open>Literals\<close>

lemma digit_val_digit_char: "d < 16 \<Longrightarrow> digit_val (digit_char upper d) = Some d"
  by (auto simp: digit_val_def digit_char_def Let_def)

lemma digits_value_snoc:
  "digits_value base (ds @ [c])
     = digits_value base ds * base + (case digit_val c of None \<Rightarrow> 0 | Some d \<Rightarrow> d)"
  by (simp add: digits_value_def)

lemma radix_digits:
  assumes "2 \<le> base" "base \<le> 16"
  shows "list_all (is_digit base) (radix base upper n) \<and> digits_value base (radix base upper n) = n"
  using assms
proof (induction base upper n rule: radix.induct)
  case (1 base upper n)
  show ?case
  proof (cases "n < base")
    case True
    then have "radix base upper n = [digit_char upper n]" by (simp add: radix.simps [of base upper n])
    moreover have "digit_val (digit_char upper n) = Some n"
      using True "1.prems" by (intro digit_val_digit_char) simp
    ultimately show ?thesis using True by (simp add: is_digit_def digits_value_def)
  next
    case False
    then have unfold: "radix base upper n = radix base upper (n div base) @ [digit_char upper (n mod base)]"
      using "1.prems" by (simp add: radix.simps [of base upper n])
    have lt: "n mod base < base" using "1.prems" by simp
    then have "n mod base < 16" using "1.prems"(2) by linarith
    then have dv: "digit_val (digit_char upper (n mod base)) = Some (n mod base)"
      by (rule digit_val_digit_char)
    have IH: "list_all (is_digit base) (radix base upper (n div base))
        \<and> digits_value base (radix base upper (n div base)) = n div base"
      using "1.IH" False "1.prems" by simp
    have isd: "is_digit base (digit_char upper (n mod base))" using dv lt by (simp add: is_digit_def)
    show ?thesis using IH dv isd
      by (simp add: unfold digits_value_snoc)
  qed
qed

lemma radix_first:
  assumes "2 \<le> base" "base \<le> 16" "0 < n"
  shows "\<exists>c cs d. radix base upper n = c # cs \<and> digit_val c = Some d \<and> 0 < d"
  using assms
proof (induction base upper n rule: radix.induct)
  case (1 base upper n)
  show ?case
  proof (cases "n < base")
    case True
    then have "radix base upper n = [digit_char upper n]" by (simp add: radix.simps [of base upper n])
    moreover have "digit_val (digit_char upper n) = Some n"
      using True "1.prems" by (intro digit_val_digit_char) simp
    ultimately show ?thesis using "1.prems"(3) by simp
  next
    case False
    then have unfold: "radix base upper n = radix base upper (n div base) @ [digit_char upper (n mod base)]"
      using "1.prems" by (simp add: radix.simps [of base upper n])
    have "0 < n div base" using False "1.prems" by (simp add: div_greater_zero_iff)
    then obtain c cs d where "radix base upper (n div base) = c # cs" "digit_val c = Some d" "0 < d"
      using "1.IH" False "1.prems" by auto
    then show ?thesis by (simp add: unfold)
  qed
qed

lemma radix_nonempty: "radix base upper n \<noteq> []"
  by (subst radix.simps) simp

lemma radix_length:
  assumes "2 \<le> base" "n < base ^ k" "0 < k"
  shows "length (radix base upper n) \<le> k"
  using assms
proof (induction k arbitrary: n)
  case 0
  then show ?case by simp
next
  case (Suc k)
  show ?case
  proof (cases "n < base")
    case True
    then show ?thesis by (simp add: radix.simps [of base upper n])
  next
    case False
    then have unfold: "radix base upper n = radix base upper (n div base) @ [digit_char upper (n mod base)]"
      using Suc.prems by (simp add: radix.simps [of base upper n])
    have k: "0 < k" using False Suc.prems by (cases k) simp_all
    have "n div base < base ^ k" using Suc.prems
      by (simp add: less_mult_imp_div_less mult.commute)
    then have "length (radix base upper (n div base)) \<le> k" using Suc.IH Suc.prems(1) k by simp
    then show ?thesis by (simp add: unfold)
  qed
qed

lemma digit_plain:
  assumes "is_digit base c" "base \<le> 16"
  shows "\<not> isspace c" "c \<noteq> NUL" "c \<noteq> CHR ''-''" "c \<noteq> CHR ''+''" "c \<noteq> CHR ''x''" "c \<noteq> CHR ''X''"
  using assms
  by (auto simp: is_digit_def isspace_def digit_val_def NUL_def Let_def split: option.splits if_splits)

lemma digit_zero: "digit_val CHR ''0'' = Some 0"
  by (simp add: digit_val_def)

lemma dec_member:
  assumes "is_digit 10 c"
  shows "c \<in> set ''0123456789''"
proof -
  define k where "k = (of_char c :: nat)"
  have c: "c = char_of k" by (simp add: k_def)
  from assms have "48 \<le> k \<and> k \<le> 57"
    by (auto simp: is_digit_def digit_val_def Let_def k_def split: option.splits if_splits)
  then consider "k = 48" | "k = 49" | "k = 50" | "k = 51" | "k = 52" | "k = 53" | "k = 54"
    | "k = 55" | "k = 56" | "k = 57" by atomize_elim arith
  then show ?thesis by cases (simp_all add: c char_of_eq_iff)
qed

lemma hex_member:
  assumes "is_digit 16 c"
  shows "c \<in> set ''0123456789abcdefABCDEF''"
proof -
  define k where "k = (of_char c :: nat)"
  have c: "c = char_of k" by (simp add: k_def)
  from assms have "(48 \<le> k \<and> k \<le> 57) \<or> (97 \<le> k \<and> k \<le> 102) \<or> (65 \<le> k \<and> k \<le> 70)"
    by (auto simp: is_digit_def digit_val_def Let_def k_def split: option.splits if_splits)
  then consider "k = 48" | "k = 49" | "k = 50" | "k = 51" | "k = 52" | "k = 53" | "k = 54"
    | "k = 55" | "k = 56" | "k = 57" | "k = 97" | "k = 98" | "k = 99" | "k = 100" | "k = 101"
    | "k = 102" | "k = 65" | "k = 66" | "k = 67" | "k = 68" | "k = 69" | "k = 70"
    by atomize_elim arith
  then show ?thesis by cases (simp_all add: c char_of_eq_iff)
qed

lemma takeWhile_all: "list_all P xs \<Longrightarrow> takeWhile P xs = xs"
  by (simp add: list_all_iff)

lemma list_all_mono: "list_all P xs \<Longrightarrow> (\<And>x. P x \<Longrightarrow> Q x) \<Longrightarrow> list_all Q xs"
  by (auto simp: list_all_iff)

lemma clamp_id: "n < 2 ^ 63 \<Longrightarrow> max LONG_MIN (min LONG_MAX (int n)) = int n"
  by simp

lemma strtol_dec:
  assumes "n < 2 ^ 63"
  shows "strtol (radix 10 False n) = int n"
proof -
  define lit where "lit = radix 10 False n"
  have all: "list_all (is_digit 10) lit" and val: "digits_value 10 lit = n"
    using radix_digits [of 10 False n] by (simp_all add: lit_def)
  obtain c cs where lit: "lit = c # cs" using radix_nonempty [of 10 False n] by (cases lit) (auto simp: lit_def)
  have c: "is_digit 10 c" and cs: "list_all (is_digit 10) cs" using all lit by simp_all
  note cp = digit_plain [OF c]
  have sp: "dropWhile isspace lit = lit" using cp lit by simp
  have second: "cidx cs 0 \<noteq> CHR ''x''" "cidx cs 0 \<noteq> CHR ''X''"
    using cs digit_plain(5,6) [of 10 "hd cs"] by (cases cs; simp add: NUL_def)+
  show ?thesis
  proof (cases "c = CHR ''0''")
    case False
    have "takeWhile (is_digit 10) lit = lit" using all by (rule takeWhile_all)
    then show ?thesis using cp False second val assms
      unfolding lit_def [symmetric] strtol_def Let_def sp
      by (simp add: lit)
  next
    case True
    have "n = 0"
    proof (rule ccontr)
      assume "n \<noteq> 0"
      then obtain c' cs' d where "radix 10 False n = c' # cs'" "digit_val c' = Some d" "0 < d"
        using radix_first [of 10 n False] by auto
      then show False using lit True digit_zero by (simp add: lit_def)
    qed
    then have "lit = ''0''"
      by (simp add: lit_def radix.simps [of 10 False 0] digit_char_def char_of_eq_iff)
    then show ?thesis using \<open>n = 0\<close>
      unfolding lit_def [symmetric] strtol_def Let_def
      by (simp add: isspace_def is_digit_def digit_val_def digits_value_def)
  qed
qed

lemma strtol_hex:
  assumes "n < 2 ^ 63"
  shows "strtol (''0x'' @ radix 16 upper n) = int n"
proof -
  define ds where "ds = radix 16 upper n"
  define lit where "lit = ''0x'' @ ds"
  have all: "list_all (is_digit 16) ds" and val: "digits_value 16 ds = n"
    using radix_digits [of 16 upper n] by (simp_all add: ds_def)
  obtain c cs where ds: "ds = c # cs" using radix_nonempty [of 16 upper n] by (cases ds) (auto simp: ds_def)
  have c: "is_digit 16 c" using all ds by simp
  have tw: "takeWhile (is_digit 16) ds = ds" using all by (rule takeWhile_all)
  have t: "dropWhile isspace lit = lit" by (simp add: lit_def isspace_def)
  have h: "cidx lit 0 = CHR ''0''" "cidx lit (Suc 0) = CHR ''x''" "cidx lit 2 = c" "drop 2 lit = ds"
    by (simp_all add: lit_def ds numeral_2_eq_2)
  have "strtol lit = int n"
    unfolding strtol_def Let_def t
    using c assms by (simp add: h tw val)
  then show ?thesis by (simp add: lit_def ds_def)
qed

lemma is_number_dec: "is_number (radix 10 False n)"
proof -
  define lit where "lit = radix 10 False n"
  have all: "list_all (is_digit 10) lit" using radix_digits [of 10 False n] by (simp add: lit_def)
  have nul: "NUL \<notin> set lit" using all digit_plain(2) [of 10] by (auto simp: list_all_iff)
  have dec: "digits_of ''0123456789'' lit"
    unfolding digits_of_def using all by (rule list_all_mono) (rule dec_member)
  obtain c cs where lit: "lit = c # cs" using radix_nonempty [of 10 False n] by (cases lit) (auto simp: lit_def)
  have "unsigned_syntax False lit"
  proof (cases "c = CHR ''0''")
    case False
    then show ?thesis using dec lit by (simp add: unsigned_syntax_def)
  next
    case True
    have "n = 0"
    proof (rule ccontr)
      assume "n \<noteq> 0"
      then obtain c' cs' d where "radix 10 False n = c' # cs'" "digit_val c' = Some d" "0 < d"
        using radix_first [of 10 n False] by auto
      then show False using lit True digit_zero by (simp add: lit_def)
    qed
    then have "lit = ''0''"
      by (simp add: lit_def radix.simps [of 10 False 0] digit_char_def char_of_eq_iff)
    then show ?thesis by (simp add: unsigned_syntax_def)
  qed
  then have "number_syntax False lit" by (simp add: number_syntax_def)
  then show ?thesis using is_number_iff [OF nul] by (simp add: lit_def)
qed

lemma is_number_hex: "is_number (''0x'' @ radix 16 upper n)"
proof -
  define ds where "ds = radix 16 upper n"
  have all: "list_all (is_digit 16) ds" using radix_digits [of 16 upper n] by (simp add: ds_def)
  have nul: "NUL \<notin> set (''0x'' @ ds)" using all digit_plain(2) [of 16] by (auto simp: list_all_iff NUL_def)
  have hex: "digits_of ''0123456789abcdefABCDEF'' ds"
    unfolding digits_of_def using all by (rule list_all_mono) (rule hex_member)
  have "ds \<noteq> []" by (simp add: ds_def radix_nonempty)
  then have "unsigned_syntax False (''0x'' @ ds)" using hex by (simp add: unsigned_syntax_def)
  then have "number_syntax False (''0x'' @ ds)" by (simp add: number_syntax_def)
  then show ?thesis using is_number_iff [OF nul] by (simp add: ds_def)
qed

subsection \<open>The number round trip\<close>

lemma put_bytes_above: "k + length cs \<le> 2 * j \<Longrightarrow> put_bytes img k cs ! j = img ! j"
proof (induction cs arbitrary: img k)
  case Nil
  then show ?case by simp
next
  case (Cons c cs)
  have "j \<noteq> k div 2" using Cons.prems by auto
  then have "put_byte img k c ! j = img ! j" by (simp add: put_byte_def)
  moreover have "put_bytes (put_byte img k c) (Suc k) cs ! j = put_byte img k c ! j"
    using Cons.prems by (intro Cons.IH) simp
  ultimately show ?case by simp
qed

lemma scan_plain:
  assumes "plain_word w" "rest = [] \<or> isspace (hd rest)"
  shows "scan_word (MAX_WORD_LENGTH - 1) (w @ rest) = Some (w, length w)"
proof -
  obtain c cs where w: "w = c # cs" using assms(1) by (cases w) (auto simp: plain_word_def)
  have ns: "\<forall>x\<in>set w. \<not> isspace x" using assms(1) by (auto simp: plain_word_def list_all_iff)
  then have c: "\<not> isspace c" using w by simp
  have tw: "takeWhile (\<lambda>x. \<not> isspace x) (w @ rest) = w"
  proof (cases rest)
    case Nil
    then show ?thesis using ns by simp
  next
    case (Cons r rs)
    then have "isspace r" using assms(2) by simp
    then show ?thesis using ns Cons by (simp add: takeWhile_append2 [of w])
  qed
  have len: "take 31 w = w" using assms(1) by (simp add: plain_word_def)
  have dw: "dropWhile isspace (w @ rest) = w @ rest" "takeWhile isspace (w @ rest) = []"
    using c w by simp_all
  show ?thesis unfolding scan_word_def Let_def dw tw using len w by simp
qed

lemma get_word_literal:
  assumes "stringin st" "sidx st \<le> length (sin st)" "drop (sidx st) (sin st) = w @ rest"
    and "plain_word w" "rest = [] \<or> isspace (hd rest)" "DICTIONARY_START \<le> length (m st)"
  shows "forth_get_word (st\<lparr>m := (m st)[RSTK := m st ! RSTK - 1]\<rparr>)
           = Some (int (length w), after_word st w)"
proof -
  have "length w < 32" using assms(4) by (simp add: plain_word_def)
  then have fit: "\<not> cell_bytes * length (m st) < s_offset + length w + 1" using assms(6) by simp
  show ?thesis using assms(1,2,3) fit scan_plain [OF assms(4,5)]
    by (simp add: forth_get_word_def after_word_def)
qed

lemma do_READ_literal:
  assumes wf: "core_size st = length (m st)" "DICTIONARY_START \<le> S st" "Suc (S st) < length (m st)"
    and inp: "stringin st" "sidx st \<le> length (sin st)" "drop (sidx st) (sin st) = w @ rest"
      "rest = [] \<or> isspace (hd rest)"
    and word: "plain_word w" "is_number w"
    and interp: "m st ! STATE = 0"
    and absent: "find_word k (after_word st w) = Inr 0"
  shows "do_READ k st =
           Break ((after_word st w)\<lparr>S := Suc (S st),
                    m := (m (after_word st w))[Suc (S st) := f st],
                    f := of_int (strtol w)\<rparr>)"
proof -
  let ?st1 = "after_word st w"
  let ?st2 = "?st1\<lparr>S := Suc (S st), m := (m ?st1)[Suc (S st) := f st]\<rparr>"
  have len: "DICTIONARY_START \<le> length (m st)" using wf(2,3) by simp
  have w: "length w < 32" "NUL \<notin> set w" using word(1) by (auto simp: plain_word_def list_all_iff)
  have gw: "forth_get_word (st\<lparr>m := (m st)[RSTK := m st ! RSTK - 1]\<rparr>) = Some (int (length w), ?st1)"
    using inp(1,2,3) word(1) inp(4) len by (rule get_word_literal)
  have len1: "length (m ?st1) = length (m st)" by (simp add: after_word_def)
  have name1: "get_cstr (m ?st1) s_offset = Some w"
    unfolding after_word_def using w len by (simp add: get_cstr_put_bytes)
  have state1: "m ?st1 ! STATE = 0"
    using interp by (simp add: after_word_def put_bytes_below)
  have psh: "push_val ?st1 (f ?st1) = Some ?st2"
    using wf(3) by (simp add: push_val_def after_word_def)
  have "get_cstr ((m ?st1)[Suc (S st) := f st]) s_offset = Some w"
    using name1 w(1) wf(2) by (intro get_cstr_update_above) simp_all
  then have name2: "get_cstr (m ?st2) s_offset = Some w" by simp
  have "1 < core_size st" using wf by simp
  from do_READ_number [OF this gw _ absent _ name1 word(2) state1 psh name2]
  show ?thesis by simp
qed

lemma literal_plain:
  assumes "n < 2 ^ 16" "lit = radix 10 False n \<or> lit = ''0x'' @ radix 16 upper n"
  shows "plain_word lit" "is_number lit" "strtol lit = int n"
proof -
  have n63: "n < 2 ^ 63" using assms(1) by simp
  have l10: "length (radix 10 False n) \<le> 5" using assms(1) by (intro radix_length) simp_all
  have l16: "length (radix 16 upper n) \<le> 4" using assms(1) by (intro radix_length) simp_all
  have d10: "list_all (\<lambda>c. \<not> isspace c \<and> c \<noteq> NUL) (radix 10 False n)"
    using radix_digits [of 10 False n] digit_plain(1,2) [of 10]
    by (auto simp: list_all_iff)
  have d16: "list_all (\<lambda>c. \<not> isspace c \<and> c \<noteq> NUL) (radix 16 upper n)"
    using radix_digits [of 16 upper n] digit_plain(1,2) [of 16]
    by (auto simp: list_all_iff)
  show "plain_word lit" using assms(2) l10 l16 d10 d16 radix_nonempty [of 10 False n]
    by (auto simp: plain_word_def isspace_def NUL_def)
  show "is_number lit" using assms(2) is_number_dec is_number_hex by auto
  show "strtol lit = int n" using assms(2) strtol_dec [OF n63] strtol_hex [OF n63] by auto
qed

lemma enter_fields [simp]:
  "m (enter ob) = m ob" "core_size (enter ob) = core_size ob" "S (enter ob) = o_S ob"
  "I (enter ob) = o_I ob" "f (enter ob) = o_top ob" "stringin (enter ob) = stringin ob"
  "sidx (enter ob) = sidx ob" "sin (enter ob) = sin ob" "slen (enter ob) = slen ob"
  "invalid (enter ob) = invalid ob" "o_S (enter ob) = o_S ob"
  "o_I (enter ob) = o_I ob" "stack_size (enter ob) = stack_size ob"
  by (simp_all add: enter_def forth.defs vm.defs)

lemma truncate_fields [simp]:
  "m (forth.truncate st) = m st" "core_size (forth.truncate st) = core_size st"
  "o_S (forth.truncate st) = o_S st" "invalid (forth.truncate st) = invalid st"
  "o_I (forth.truncate st) = o_I st"
  by (simp_all add: forth.defs)

lemma find_loop_more:
  "find_loop n img w len = Inr x \<Longrightarrow> find_loop (n + j) img w len = Inr x"
proof (induction n arbitrary: w len)
  case 0
  then show ?case by simp
next
  case (Suc n)
  then show ?case
    by (auto simp: Let_def split: if_splits option.splits)
qed

lemma find_word_more:
  "find_word n st = Inr x \<Longrightarrow> m st' = m st \<Longrightarrow> find_word (n + j) st' = Inr x"
  by (auto simp: find_word_def Let_def split: if_splits dest: find_loop_more)

lemma opcode_vals: "opcode READ = 6" "opcode RUN = 2"
  by (simp_all add: opcode_def instructions_def)

lemma decode_vals: "decode (b 6) = Some READ" "decode (b 2) = Some RUN"
  by (simp_all add: decode_def b_def instructions_def)

lemma eval_literal:
  assumes wf: "core_size ob = length (m ob)" "\<not> invalid ob" "read_loop ob" "m ob ! STATE = 0"
    and stk: "DICTIONARY_START + 3 \<le> o_S ob" "Suc (o_S ob) < unat (m ob ! RSTK)"
      "unat (m ob ! RSTK) < core_size ob"
    and word: "plain_word w" "is_number w"
    and absent: "find_word k (after_word (forth_set_string_input ob w) w) = Inr 0"
  shows "\<exists>st. threaded (k + 6 + j) None (enter (forth_set_string_input ob w)) = Ended st
           \<and> f st = of_int (strtol w) \<and> frame st = frame ob
           \<and> m st = (put_bytes ((m ob)[RSTK := m ob ! RSTK - 1]) s_offset (w @ [NUL]))
                      [Suc (o_S ob) := o_top ob, unat (m ob ! RSTK) := 68]"
proof -
  define R where "R = m ob ! RSTK"
  define st0 where "st0 = enter (forth_set_string_input ob w)"
  define A where "A = st0\<lparr>I := 67\<rparr>"
  define B where "B = (after_word A w)\<lparr>S := Suc (S A),
      m := (m (after_word A w))[Suc (S A) := f A], f := of_int (strtol w)\<rparr>"
  have loop: "o_I ob = 66" "m ob ! 64 = 6" "m ob ! 65 = 2" "m ob ! 66 = 64" "m ob ! 67 = 65"
    using wf(3) by (simp_all add: read_loop_def opcode_vals)
  have A: "m A = m ob" "core_size A = length (m ob)" "S A = o_S ob" "f A = o_top ob"
    "stringin A" "sidx A = 0" "sin A = w" "slen A = length w + 1" "I A = 67"
    using wf(1) by (simp_all add: A_def st0_def forth_set_string_input_def)
  have h1: "threaded (Suc n) None st0 = threaded n (Some 64) A" for n
    using wf(1) stk loop by (simp add: A_def st0_def forth_set_string_input_def ck_def Let_def)
  define n4 where "n4 = k + (j + 4)"
  have abs: "find_word n4 (after_word A w) = Inr 0"
    unfolding n4_def
    using absent by (rule find_word_more) (simp add: after_word_def A forth_set_string_input_def)
  have r1: "do_READ n4 A = Break B"
    unfolding B_def
    using stk wf(1,4) abs word by (intro do_READ_literal [where rest = "[]"]) (simp_all add: A)
  have d1: "dispatch n4 64 A = Break B"
    using r1 loop stk wf(1) by (simp add: dispatch_def execute_def ck_def A decode_vals)
  have short: "length w < 32" using word(1) by (simp add: plain_word_def)
  have img: "m B = (put_bytes ((m ob)[RSTK := R - 1]) s_offset (w @ [NUL]))[Suc (o_S ob) := o_top ob]"
    by (simp add: B_def after_word_def A R_def)
  have len: "length (m B) = length (m ob)" by (simp add: img)
  have kept: "m B ! j = m ob ! j" if "DICTIONARY_START \<le> j" "j \<noteq> Suc (o_S ob)" for j
    using that short by (simp add: img put_bytes_above)
  have cells: "m B ! 64 = 6" "m B ! 65 = 2" "m B ! 66 = 64" "m B ! 67 = 65"
    using kept [of 64] kept [of 65] kept [of 66] kept [of 67] stk(1) loop by simp_all
  have rs: "m B ! RSTK = R - 1"
    using stk wf(1) by (simp add: img put_bytes_below)
  have B: "I B = 67" "S B = Suc (o_S ob)" "core_size B = length (m ob)" "stringin B"
    "sidx B = length w" "sin B = w" "f B = of_int (strtol w)" "frame B = frame ob"
    using wf(1)
    by (simp_all add: B_def after_word_def A frame_def A_def st0_def forth_set_string_input_def)
  have Rb: "unat R < length (m ob)" "Suc (o_S ob) < unat R" "R - 1 + 1 = R"
    using stk wf(1) by (simp_all add: R_def)
  have h2: "threaded (Suc n) None B = threaded n (Some 65) (B\<lparr>I := 68\<rparr>)" for n
    using cells B Rb len stk(1) by (simp add: ck_def Let_def)
  define C where "C = B\<lparr>m := (m B)[RSTK := R, unat R := 68], I := 66\<rparr>"
  have d2: "dispatch n 65 (B\<lparr>I := 68\<rparr>) = Break C" for n
    using cells B Rb len rs stk(1)
    by (simp add: dispatch_def execute_def ck_def decode_vals do_RUN_def rpush_def then_do_def
        Let_def C_def)
  have Cm: "m C = (m B)[RSTK := R, unat R := 68]" by (simp add: C_def)
  have Ccells: "m C ! 64 = 6" "m C ! 66 = 64" "m C ! RSTK = R" "length (m C) = length (m ob)"
    using cells Rb stk(1) len by (simp_all add: Cm)
  have C: "I C = 66" "S C = Suc (o_S ob)" "core_size C = length (m ob)" "stringin C"
    "sidx C = length w" "sin C = w" "f C = of_int (strtol w)" "frame C = frame ob"
    using B by (simp_all add: C_def)
  have h3: "threaded (Suc n) None C = threaded n (Some 64) (C\<lparr>I := 67\<rparr>)" for n
    using Ccells C Rb stk(1) by (simp add: ck_def Let_def)
  define E where "E = C\<lparr>I := 67, m := (m C)[RSTK := R - 1]\<rparr>"
  have d3: "dispatch n 64 (C\<lparr>I := 67\<rparr>) = End E" for n
    using Ccells C Rb stk(1)
    by (simp add: dispatch_def execute_def ck_def decode_vals do_READ_def forth_get_word_def
        scan_word_def E_def)
  have run: "threaded (k + 6 + j) None st0 = Ended E"
  proof -
    have n4: "n4 = Suc (Suc (Suc (Suc (k + j))))" by (simp add: n4_def)
    have "threaded (Suc (Suc n4)) None st0 = threaded (Suc n4) (Some 64) A"
      by (rule h1)
    also have "\<dots> = threaded n4 None B"
      by (simp only: threaded.simps(3) d1 outcome.case)
    also have "\<dots> = threaded (Suc (Suc (Suc (k + j)))) (Some 65) (B\<lparr>I := 68\<rparr>)"
      unfolding n4 by (rule h2)
    also have "\<dots> = threaded (Suc (Suc (k + j))) None C"
      by (simp only: threaded.simps(3) d2 outcome.case)
    also have "\<dots> = threaded (Suc (k + j)) (Some 64) (C\<lparr>I := 67\<rparr>)"
      by (rule h3)
    also have "\<dots> = Ended E"
      by (simp only: threaded.simps(3) d3 outcome.case)
    finally have "threaded (Suc (Suc n4)) None st0 = Ended E" .
    moreover have "Suc (Suc n4) = k + 6 + j" by (simp add: n4_def)
    ultimately show ?thesis by simp
  qed
  have "m E = (put_bytes ((m ob)[RSTK := R - 1]) s_offset (w @ [NUL]))
                [Suc (o_S ob) := o_top ob, unat R := 68]"
  proof (rule nth_equalityI)
    show "length (m E) = length ((put_bytes ((m ob)[RSTK := R - 1]) s_offset (w @ [NUL]))
                [Suc (o_S ob) := o_top ob, unat R := 68])"
      by (simp add: E_def Cm img)
  next
    fix i assume "i < length (m E)"
    then have i: "i < length (m ob)" by (simp add: E_def Cm img)
    have ne: "RSTK \<noteq> unat R" "RSTK \<noteq> Suc (o_S ob)" using Rb stk(1) by simp_all
    show "m E ! i = (put_bytes ((m ob)[RSTK := R - 1]) s_offset (w @ [NUL]))
                [Suc (o_S ob) := o_top ob, unat R := 68] ! i"
    proof (cases "i = RSTK")
      case True
      then show ?thesis using i ne rs [unfolded img] by (simp add: E_def Cm img)
    next
      case False
      then show ?thesis using i Rb by (auto simp: E_def Cm img nth_list_update)
    qed
  qed
  moreover have "f E = of_int (strtol w)" "frame E = frame ob" using C by (simp_all add: E_def)
  ultimately show ?thesis using run unfolding st0_def R_def by blast
qed


text \<open>
  C9, as amended.  For every \<open>n\<close> that fits a cell (\<open>n < 2^16\<close>), \<^verbatim>\<open>forth_eval\<close> of the decimal
  literal of \<open>n\<close> or of its hexadecimal literal (\<^verbatim>\<open>0x\<close> and the digits, in either case), on a
  valid core in interpret mode (its image being \<^verbatim>\<open>core_size\<close> cells) that holds the read loop of
  \<^verbatim>\<open>forth_init\<close> in the cells 64 to 67 with its instruction pointer at 66, whose dictionary has
  no word of that name (\<^verbatim>\<open>find\<close> returns 0 within \<open>k\<close> links), and whose parameter stack pointer
  \<open>S\<close> is at or above cell 67 with the cell \<open>S + 1\<close> below the return stack pointer \<^verbatim>\<open>m[RSTK]\<close>,
  itself inside the image: the run, allowed \<open>k + 6\<close> passes or more, returns 0 with the core
  still valid and exactly \<open>n\<close> as its top of stack, which \<^verbatim>\<open>forth_pop\<close> then returns.  The
  previous top is written into the cell \<open>S + 1\<close>, while the stored stack pointer stays \<open>S\<close>,
  since \<^verbatim>\<open>forth_run\<close> stores only the top on exit.  Every other cell from the start of the
  dictionary on, but for the return stack cell \<^verbatim>\<open>m[RSTK]\<close> that the call in the read loop
  writes, and the registers \<^verbatim>\<open>DIC\<close> and \<^verbatim>\<open>PWD\<close> are unchanged.
\<close>

theorem literal_round_trip:
  assumes "core_size ob = length (m ob)" "\<not> invalid ob" "read_loop ob" "m ob ! STATE = 0"
    and "DICTIONARY_START + 3 \<le> o_S ob" "Suc (o_S ob) < unat (m ob ! RSTK)"
      "unat (m ob ! RSTK) < core_size ob"
    and "n < 2 ^ 16" "lit = radix 10 False n \<or> lit = ''0x'' @ radix 16 upper n"
    and "find_word k (after_word (forth_set_string_input ob lit) lit) = Inr 0"
  shows "\<exists>ob'. forth_eval (k + 6 + j) ob lit = Returned 0 ob'
           \<and> \<not> invalid ob' \<and> o_top ob' = of_nat n \<and> unat (o_top ob') = n
           \<and> map_option fst (forth_pop ob') = Some (of_nat n)
           \<and> o_S ob' = o_S ob \<and> m ob' ! Suc (o_S ob) = o_top ob
           \<and> (\<forall>c. DICTIONARY_START \<le> c \<and> c \<noteq> Suc (o_S ob) \<and> c \<noteq> unat (m ob ! RSTK)
                  \<longrightarrow> m ob' ! c = m ob ! c)
           \<and> m ob' ! DIC = m ob ! DIC \<and> m ob' ! PWD = m ob ! PWD"
proof -
  note lit = literal_plain [OF assms(8,9)]
  obtain st where run: "threaded (k + 6 + j) None (enter (forth_set_string_input ob lit)) = Ended st"
    and top: "f st = of_int (strtol lit)" and fr: "frame st = frame ob"
    and img: "m st = (put_bytes ((m ob)[RSTK := m ob ! RSTK - 1]) s_offset (lit @ [NUL]))
                       [Suc (o_S ob) := o_top ob, unat (m ob ! RSTK) := 68]"
    using eval_literal [OF assms(1-7) lit(1,2) assms(10)] by blast
  let ?ob' = "(forth.truncate st)\<lparr>o_top := f st\<rparr>"
  have ev: "forth_eval (k + 6 + j) ob lit = Returned 0 ?ob'"
    using assms(2) run by (simp add: forth_eval_def forth_run_def forth_set_string_input_def)
  have short: "length lit < 32" using lit(1) by (simp add: plain_word_def)
  have frs: "o_S st = o_S ob" "invalid st = invalid ob" using fr by (simp_all add: frame_def)
  have len: "length (m st) = length (m ob)" by (simp add: img)
  have bnd: "Suc (o_S ob) < length (m ob)" "unat (m ob ! RSTK) < length (m ob)"
    using assms(1,6,7) by simp_all
  have "unat (of_nat n :: cell) = n" using assms(8) by (simp add: unat_of_nat)
  then have t: "o_top ?ob' = of_nat n" "unat (o_top ?ob') = n" by (simp_all add: top lit(3))
  have pushed: "m ?ob' ! Suc (o_S ob) = o_top ob" using bnd assms(6) by (simp add: img)
  have rest: "\<forall>c. DICTIONARY_START \<le> c \<and> c \<noteq> Suc (o_S ob) \<and> c \<noteq> unat (m ob ! RSTK)
                  \<longrightarrow> m ?ob' ! c = m ob ! c"
    using short by (auto simp: img put_bytes_above)
  have regs: "m ?ob' ! DIC = m ob ! DIC" "m ?ob' ! PWD = m ob ! PWD"
    using assms(5,6) by (simp_all add: img put_bytes_below)
  have pop: "map_option fst (forth_pop ?ob') = Some (of_nat n)"
    using t(1) assms(5) bnd(1) by (simp add: forth_pop_def frs len)
  show ?thesis
    using ev t pop pushed rest regs assms(2) frs by (intro exI [of _ ?ob']) simp
qed

lemma radix_7: "radix 10 False 7 = ''7''"
  by (simp add: radix.simps [of 10 False 7] digit_char_def char_of_eq_iff)

lemma tiny_loop: "read_loop (tiny_core\<lparr>o_top := t\<rparr>)" "read_loop (seven_core t)"
  by (simp_all add: read_loop_def seven_core_def tiny_core_def opcode_vals)

theorem literal_round_trip_witness:
  "\<exists>ob'. forth_eval 8 (tiny_core\<lparr>o_top := 3\<rparr>) ''7'' = Returned 0 ob'
         \<and> o_top ob' = 7 \<and> map_option fst (forth_pop ob') = Some 7
         \<and> o_S ob' = 80 \<and> m ob' ! 81 = 3 \<and> m ob' ! DIC = 72 \<and> m ob' ! 71 = 7"
proof -
  let ?ob = "tiny_core\<lparr>o_top := 3\<rparr>"
  have st: "core_size ?ob = length (m ?ob)" "\<not> invalid ?ob" "m ?ob ! STATE = 0"
    "DICTIONARY_START + 3 \<le> o_S ?ob" "Suc (o_S ?ob) < unat (m ?ob ! RSTK)"
    "unat (m ?ob ! RSTK) < core_size ?ob"
    by (simp_all add: tiny_core_def)
  have vals: "o_S ?ob = 80" "o_top ?ob = 3" "m ?ob ! DIC = 72" "m ?ob ! 71 = 7"
    "unat (m ?ob ! RSTK) = 88"
    by (simp_all add: tiny_core_def)
  have "m (after_word (forth_set_string_input ?ob ''7'') ''7'') = m (at_read 3 ''7'' 55)"
    by (simp add: after_word_def at_read_def forth_set_string_input_def tiny_core_def
        put_byte_def NUL_def)
  with at_find(2) [of 0 3 "''7''"]
  have absent: "find_word (Suc (Suc 0)) (after_word (forth_set_string_input ?ob (radix 10 False 7))
      (radix 10 False 7)) = Inr 0"
    unfolding radix_7 using find_word_more [where j = 0] by fastforce
  from literal_round_trip [where n = 7 and upper = False and j = 0,
      OF st(1,2) tiny_loop(1) st(3-6) _ _ absent] vals
  show ?thesis by (auto simp: radix_7)
qed

lemma seven_get_word:
  "forth_get_word ((seven_word t)\<lparr>m := (m (seven_word t))[RSTK := m (seven_word t) ! RSTK - 1]\<rparr>)
     = Some (1, seven_read t)"
  by (simp add: seven_word_def seven_read_def at_word_def tiny_input_def enter_def
      forth_set_string_input_def tiny_core_def forth.defs vm.defs forth_get_word_def scan_word_def
      isspace_def put_byte_def NUL_def)

lemma seven_image:
  "m (seven_read t) = (replicate 96 0)[0 := 72, 10 := 69, 11 := 2, 12 := 96,
            64 := 6, 65 := 2, 66 := 64, 67 := 65, 69 := 1, 70 := 257, 71 := 7,
            68 := 55, 1 := 87, 32 := 55]"
  by (simp add: seven_read_def tiny_core_def list_update_swap)

lemma seven_cells:
  "length (m (seven_read t)) = 96" "m (seven_read t) ! 10 = 69" "m (seven_read t) ! 70 = 257"
  "m (seven_read t) ! 8 = 0" "m (seven_read t) ! 71 = 7"
  "get_byte (m (seven_read t)) 136 = CHR ''7''" "get_byte (m (seven_read t)) 137 = NUL"
  "get_cstr (m (seven_read t)) 64 = Some ''7''"
  by (simp_all add: seven_image get_cstr.simps get_byte_def NUL_def char_of_eq_iff)

lemma seven_find: "find_word (Suc n) (seven_read t) = Inr 69"
  unfolding find_word_def Let_def
  by (simp add: seven_cells WORD_LENGTH_def WORD_HIDDEN_def)

lemma seven_fields:
  "core_size (seven_word t) = 96" "length (m (seven_word t)) = 96"
  "core_size (seven_read t) = 96" "S (seven_read t) = 80" "S (seven_word t) = 80"
  "f (seven_read t) = t" "m (seven_word t) ! STATE = 0" "stringin (seven_word t)"
  "drop (sidx (seven_word t)) (sin (seven_word t)) = ''7''"
  by (simp_all add: seven_word_def seven_read_def at_word_def tiny_input_def enter_def
      forth_set_string_input_def tiny_core_def forth.defs vm.defs)

lemma seven_head:
  "threaded (Suc n) None (enter (forth_set_string_input (seven_core t) ''7''))
     = threaded n (Some 64) (seven_word t)"
  by (simp add: seven_word_def seven_core_def at_word_def tiny_input_def enter_def
      forth_set_string_input_def tiny_core_def forth.defs vm.defs ck_def Let_def)

lemma seven_dispatch_READ: "dispatch (Suc n) 64 (seven_word t) = Inner 71 (seven_read t)"
proof -
  have op: "decode (b (m (seven_word t) ! 64)) = Some READ" "ck (seven_word t) 64"
    by (simp_all add: seven_word_def tiny_core_def decode_def b_def instructions_def ck_def
        at_fields)
  have "do_READ (Suc n) (seven_word t) = Inner 71 (seven_read t)"
    using do_READ_found [of "seven_word t" 1 "seven_read t" "Suc n" 69, OF _ _ seven_get_word _ seven_find]
    by (simp add: seven_fields seven_cells b_def opcode_def instructions_def)
  then show ?thesis using op by (simp add: dispatch_def execute_def)
qed

lemma seven_dispatch_LOAD: "dispatch n 71 (seven_read 10) = Break ((seven_read 10)\<lparr>f := 69\<rparr>)"
  by (simp add: dispatch_def execute_def do_LOAD_def ck_def seven_fields seven_cells decode_def
      b_def instructions_def)

lemma seven_rest:
  "threaded (Suc (Suc (Suc (Suc n)))) None ((seven_read t)\<lparr>f := 69\<rparr>)
     = Ended ((seven_read t)\<lparr>f := 69, I := 67, m := (m (seven_read t))[88 := 68]\<rparr>)"
  by (simp add: seven_read_def seven_word_def at_word_def tiny_input_def enter_def
      forth_set_string_input_def tiny_core_def forth.defs vm.defs ck_def Let_def
      dispatch_def execute_def decode_def b_def instructions_def do_RUN_def rpush_def then_do_def
      do_READ_def forth_get_word_def scan_word_def list_update_swap)

lemma seven_run:
  "forth_eval (Suc (Suc (Suc (Suc (Suc (Suc (Suc 0))))))) (seven_core 10) ''7''
     = Returned 0 (seven_after 10)"
proof -
  have "\<not> invalid (forth_set_string_input (seven_core 10) ''7'')"
    by (simp add: seven_core_def forth_set_string_input_def tiny_core_def)
  then show ?thesis
    by (simp add: forth_eval_def forth_run_def seven_head seven_dispatch_READ seven_dispatch_LOAD
        seven_rest seven_after_def del: threaded.simps(2))
qed


lemma do_READ_pushed:
  assumes "1 < core_size st"
    and "forth_get_word (st\<lparr>m := (m st)[RSTK := m st ! RSTK - 1]\<rparr>) = Some (r, st1)" "0 \<le> r"
    and "find_word n st1 = Inr w" "w \<le> 1"
    and "get_cstr (m st1) s_offset = Some word" "is_number word" "m st1 ! STATE = 0"
    and "push_val st1 (f st1) = Some st2" "get_cstr (m st2) s_offset = Some num"
  shows "do_READ n st = Break (st2\<lparr>f := of_int (strtol num)\<rparr>)"
proof -
  have "\<not> 1 < w" using assms(5) by (simp add: not_less)
  then show ?thesis using assms by (simp add: do_READ_def ck_def)
qed

lemma low_head:
  "threaded (Suc n) None (enter (forth_set_string_input low_core ''7'')) = threaded n (Some 64) low_word"
  by (simp add: low_word_def low_core_def enter_def forth_set_string_input_def tiny_core_def
      forth.defs vm.defs ck_def Let_def)

lemma low_get_word:
  "forth_get_word (low_word\<lparr>m := (m low_word)[RSTK := m low_word ! RSTK - 1]\<rparr>) = Some (1, low_read)"
  by (simp add: low_word_def low_read_def low_core_def enter_def forth_set_string_input_def
      tiny_core_def forth.defs vm.defs forth_get_word_def scan_word_def isspace_def put_byte_def NUL_def)

lemma low_find: "find_word (Suc (Suc n)) low_read = Inr 0"
proof -
  have "m low_read = m (at_read 3 ''7'' 55)" by (simp add: low_read_def at_read_def)
  with at_find(2) [of n 3 "''7''"] show ?thesis
    using find_word_more [where j = 0] by fastforce
qed

lemma low_fields:
  "core_size low_word = 96" "f low_read = 3" "S low_read = 31" "length (m low_read) = 96"
  "m low_read ! 8 = 0" "get_cstr (m low_read) 64 = Some ''7''"
  "get_cstr ((m low_read)[32 := 3]) 64 = Some [CHR 0x03]"
  by (simp_all add: low_word_def low_read_def low_core_def enter_def forth_set_string_input_def
      tiny_core_def forth.defs vm.defs get_cstr.simps get_byte_def NUL_def char_of_eq_iff)

lemma strtol_ctrl: "strtol [CHR 0x03] = 0"
  apply (simp only: strtol_def Let_def)
  apply (simp add: isspace_def is_digit_def digit_val_def digits_value_def NUL_def cidx_def)
  done

lemma low_dispatch_READ: "dispatch (Suc (Suc n)) 64 low_word = Break low_pushed"
proof -
  have op: "decode (b (m low_word ! 64)) = Some READ" "ck low_word 64"
    by (simp_all add: low_word_def low_core_def enter_def forth_set_string_input_def
      tiny_core_def forth.defs vm.defs decode_def b_def instructions_def ck_def)
  have psh: "push_val low_read (f low_read) = Some (low_read\<lparr>S := 32, m := (m low_read)[32 := 3]\<rparr>)"
    by (simp add: push_val_def low_fields)
  have "do_READ (Suc (Suc n)) low_word
          = Break ((low_read\<lparr>S := 32, m := (m low_read)[32 := 3]\<rparr>)\<lparr>f := of_int (strtol [CHR 0x03])\<rparr>)"
    using do_READ_pushed [of low_word 1 low_read "Suc (Suc n)" 0 "''7''" _ "[CHR 0x03]",
        OF _ low_get_word _ low_find _ _ strtol_7(1) _ psh]
    by (simp add: low_fields)
  moreover have "(low_read\<lparr>S := 32, m := (m low_read)[32 := 3]\<rparr>)\<lparr>f := 0\<rparr> = low_pushed"
    by (simp add: low_pushed_def low_read_def)
  ultimately show ?thesis using op by (simp add: dispatch_def execute_def strtol_ctrl)
qed

lemma low_rest:
  "threaded (Suc (Suc (Suc (Suc n)))) None low_pushed
     = Ended (low_pushed\<lparr>I := 67, m := (m low_pushed)[88 := 68]\<rparr>)"
  by (simp add: low_pushed_def low_read_def low_word_def low_core_def enter_def
      forth_set_string_input_def tiny_core_def forth.defs vm.defs ck_def Let_def
      dispatch_def execute_def decode_def b_def instructions_def do_RUN_def rpush_def then_do_def
      do_READ_def forth_get_word_def scan_word_def list_update_swap)

lemma low_run:
  "forth_eval (Suc (Suc (Suc (Suc (Suc (Suc 0)))))) low_core ''7'' = Returned 0 low_after"
proof -
  have "\<not> invalid (forth_set_string_input low_core ''7'')"
    by (simp add: low_core_def forth_set_string_input_def tiny_core_def)
  moreover have "f low_pushed = 0" by (simp add: low_pushed_def)
  ultimately show ?thesis
    by (simp add: forth_eval_def forth_run_def low_head low_dispatch_READ low_rest low_after_def
        del: threaded.simps(2))
qed


lemma tiny_after_pop:
  "o_S (tiny_after t) = 80" "o_top (tiny_after t) = 7"
  "forth_pop (tiny_after t) = Some (7, (tiny_after t)\<lparr>o_top := 0, o_S := 79\<rparr>)"
  by (simp_all add: tiny_after_def at_pushed_def at_read_def at_word_def tiny_input_def enter_def
      forth_set_string_input_def tiny_core_def forth.defs vm.defs forth_pop_def)

text \<open>
  C9 as stated fails, on three cores in interpret mode that hold the read loop.  On the core
  that defines a word named \<^verbatim>\<open>7\<close>, with 10 on top, evaluating \<^verbatim>\<open>7\<close> runs that word, whose body
  (\<^verbatim>\<open>LOAD\<close>) leaves 69 on top.  On the core whose stack pointer is at cell 31, the push of the
  old top overwrites the word in the string buffer before \<^verbatim>\<open>strtol\<close> reads it, and 0 is left
  on top.  On the small core with 3 on top the run leaves 7 on top, but the stored stack
  pointer is as before the run: \<^verbatim>\<open>forth_pop\<close> returns 7 and then has 0 on top, the cell that was
  below the 3, so the previous top is not pushed down in the stack that the host sees.
\<close>

theorem literal_not_left_counterexample:
  "radix 10 False 7 = ''7''
   \<and> read_loop (seven_core 10) \<and> m (seven_core 10) ! STATE = 0
   \<and> forth_eval (Suc (Suc (Suc (Suc (Suc (Suc (Suc 0))))))) (seven_core 10) ''7''
       = Returned 0 (seven_after 10)
   \<and> o_top (seven_after 10) = 69
   \<and> read_loop low_core \<and> m low_core ! STATE = 0
   \<and> forth_eval (Suc (Suc (Suc (Suc (Suc (Suc 0)))))) low_core ''7'' = Returned 0 low_after
   \<and> o_top low_after = 0
   \<and> forth_eval (Suc (Suc (Suc (Suc (Suc (Suc 0)))))) (tiny_core\<lparr>o_top := 3\<rparr>) ''7''
       = Returned 0 (tiny_after 3)
   \<and> o_S (tiny_after 3) = o_S (tiny_core\<lparr>o_top := 3\<rparr>)
   \<and> forth_pop (tiny_after 3) = Some (7, (tiny_after 3)\<lparr>o_top := 0, o_S := 79\<rparr>)"
proof -
  have loops: "read_loop low_core" "m low_core ! STATE = 0" "m (seven_core 10) ! STATE = 0"
    by (simp_all add: read_loop_def low_core_def seven_core_def tiny_core_def opcode_vals)
  have tops: "o_top (seven_after 10) = 69" "o_top low_after = 0"
    by (simp_all add: seven_after_def low_after_def)
  have tiny: "forth_eval (Suc (Suc (Suc (Suc (Suc (Suc 0)))))) (tiny_core\<lparr>o_top := 3\<rparr>) ''7''
      = Returned 0 (tiny_after 3)"
    using tiny_run_ok [of 0 3] by (simp add: forth_eval_def tiny_input_def tiny_after_def)
  have "o_S (tiny_core\<lparr>o_top := 3\<rparr>) = 80" by (simp add: tiny_core_def)
  then show ?thesis
    using loops tops tiny tiny_loop(2) [of 10] seven_run low_run tiny_after_pop [of 3]
    by (simp add: radix_7)
qed

end
